theory Spec2Isabelle
  imports Main "HOL-Library.Word" "HOL-Library.Monad_Syntax" "HOL-Library.Multiset"
begin

section \<open>Common types\<close>

text \<open>
  Pointers are block numbers; \<open>None\<close> is \<open>nullptr\<close>. \<open>size_t\<close> is the 64-bit
  unsigned integer of the LP64 targets the toolkit is built for. Points of the
  steady clock and durations are unbounded integers counting ticks; overflow of
  \<open>chrono\<close> arithmetic is undefined behaviour in the source and outside the model.
\<close>

type_synonym addr = nat
type_synonym size_t = "64 word"
type_synonym time_point = int

section \<open>memory/memory_pool.hpp\<close>

text \<open>
  \<open>Chunk::chunk_size\<close> is 64 KiB. A \<open>Block\<close> is \<open>BlockSize = 4096\<close> bytes of
  data aligned to \<open>max_align_t\<close> followed by the \<open>next\<close> pointer: 4112 bytes
  on LP64, which gives 15 blocks in a chunk.
\<close>

definition chunk_size :: nat where
  "chunk_size = 64 * 1024"

definition sizeof_Block :: nat where
  "sizeof_Block = 4112"

definition blocks_per_chunk :: nat where
  "blocks_per_chunk = chunk_size div sizeof_Block"

text \<open>
  The fields carry the source's names without the trailing underscore.
  \<open>free_list\<close> is the chain of blocks that starts at the pointer of that name
  and follows \<open>Block::next\<close>, first block first. \<open>chunks\<close> counts the chunks
  of the vector of that name; chunk \<open>k\<close> holds the blocks
  \<open>k * blocks_per_chunk + i\<close>. \<open>objects\<close> maps a block to the \<open>T\<close> that
  has been constructed in it and not yet destroyed. \<open>new Chunk()\<close> is taken to
  succeed.
\<close>

record 'a MemoryPool =
  free_list :: "addr list"
  chunks :: nat
  objects :: "addr \<rightharpoonup> 'a"

definition MemoryPool_new :: "'a MemoryPool" where
  "MemoryPool_new = \<lparr>free_list = [], chunks = 0, objects = Map.empty\<rparr>"

definition allocate_chunk :: "'a MemoryPool \<Rightarrow> 'a MemoryPool" where
  "allocate_chunk p =
     p\<lparr>chunks := chunks p + 1,
       free_list := map (\<lambda>i. chunks p * blocks_per_chunk + i) [0..<blocks_per_chunk]
                     @ free_list p\<rparr>"

text \<open>\<open>None\<close>: the read of \<open>block->next\<close> through a null \<open>block\<close>.\<close>

definition allocate_block :: "'a MemoryPool \<Rightarrow> (addr \<times> 'a MemoryPool) option" where
  "allocate_block p =
     (let p1 = (if free_list p = [] then allocate_chunk p else p)
      in case free_list p1 of
           [] \<Rightarrow> None
         | block # rest \<Rightarrow> Some (block, p1\<lparr>free_list := rest\<rparr>))"

text \<open>\<open>allocate(args...)\<close>; \<open>v\<close> is the object that \<open>T(args...)\<close> constructs.\<close>

definition allocate :: "'a \<Rightarrow> 'a MemoryPool \<Rightarrow> (addr \<times> 'a MemoryPool) option" where
  "allocate v p =
     (case allocate_block p of
        None \<Rightarrow> None
      | Some (ptr, p1) \<Rightarrow> Some (ptr, p1\<lparr>objects := (objects p1)(ptr \<mapsto> v)\<rparr>))"

definition deallocate :: "addr option \<Rightarrow> 'a MemoryPool \<Rightarrow> 'a MemoryPool" where
  "deallocate ptr p =
     (case ptr of
        None \<Rightarrow> p
      | Some block \<Rightarrow>
          p\<lparr>objects := (objects p)(block := None),
            free_list := block # free_list p\<rparr>)"

definition allocated_size :: "'a MemoryPool \<Rightarrow> size_t" where
  "allocated_size p = of_nat (chunks p) * of_nat chunk_size"

section \<open>scheduler/work_stealing_scheduler.hpp: WorkStealingQueue\<close>

text \<open>
  The deque \<open>tasks_\<close> (here \<open>ws_tasks\<close>) is a list, front first. Every member function holds the
  mutex for its whole body, so each is one atomic step. \<open>try_pop\<close> and
  \<open>try_steal\<close> return \<open>bool\<close> and write the task through a reference: here
  \<open>Some task\<close> is \<open>true\<close> and \<open>None\<close> is \<open>false\<close>.
\<close>

record 'a WorkStealingQueue =
  ws_tasks :: "'a list"

definition WorkStealingQueue_new :: "'a WorkStealingQueue" where
  "WorkStealingQueue_new = \<lparr>ws_tasks = []\<rparr>"

definition push :: "'a \<Rightarrow> 'a WorkStealingQueue \<Rightarrow> 'a WorkStealingQueue" where
  "push task q = q\<lparr>ws_tasks := ws_tasks q @ [task]\<rparr>"

definition try_pop :: "'a WorkStealingQueue \<Rightarrow> 'a option \<times> 'a WorkStealingQueue" where
  "try_pop q =
     (if ws_tasks q = [] then (None, q)
      else (Some (last (ws_tasks q)), q\<lparr>ws_tasks := butlast (ws_tasks q)\<rparr>))"

definition try_steal :: "'a WorkStealingQueue \<Rightarrow> 'a option \<times> 'a WorkStealingQueue" where
  "try_steal q =
     (if ws_tasks q = [] then (None, q)
      else (Some (hd (ws_tasks q)), q\<lparr>ws_tasks := tl (ws_tasks q)\<rparr>))"

definition ws_empty :: "'a WorkStealingQueue \<Rightarrow> bool" where
  "ws_empty q = (ws_tasks q = [])"

text \<open>
  A run of the deque: a sequence of calls from its owner and from thieves, in
  the order in which they take the mutex. To tell which element was pushed
  when, the run stamps the value of its \<open>n\<close>-th push with \<open>n\<close>.
\<close>

datatype 'a ws_op = Push 'a | Pop | Steal

fun ws_apply :: "'a ws_op \<Rightarrow> (nat \<times> 'a) WorkStealingQueue \<times> nat
    \<Rightarrow> (nat \<times> 'a) WorkStealingQueue \<times> nat" where
  "ws_apply (Push x) (q, n) = (push (n, x) q, Suc n)"
| "ws_apply Pop (q, n) = (snd (try_pop q), n)"
| "ws_apply Steal (q, n) = (snd (try_steal q), n)"

fun ws_run :: "'a ws_op list \<Rightarrow> (nat \<times> 'a) WorkStealingQueue \<times> nat
    \<Rightarrow> (nat \<times> 'a) WorkStealingQueue \<times> nat" where
  "ws_run [] s = s"
| "ws_run (op # ops) s = ws_run ops (ws_apply op s)"

definition ws_stamps_ok :: "(nat \<times> 'a) WorkStealingQueue \<times> nat \<Rightarrow> bool" where
  "ws_stamps_ok s =
     (sorted_wrt (<) (map fst (ws_tasks (fst s)))
      \<and> list_all (\<lambda>e. fst e < snd s) (ws_tasks (fst s)))"

section \<open>std::priority_queue\<close>

text \<open>
  The schedulers keep their tasks in a \<open>std::priority_queue\<close>, which belongs
  to the standard library: \<open>top()\<close> is an element that is not less than any
  other under the comparison, \<open>pop()\<close> removes it, \<open>push\<close> adds an element.
  The model is the vector of the elements in the order of their insertion;
  \<open>pq_extract lt x ys\<close> takes out of \<open>x # ys\<close> the first element that is
  not less than any other. Which of several elements that compare equal is on
  top is not fixed by the library, and no theorem below depends on it.
  \<open>pq_top\<close> is \<open>None\<close> on the empty queue, where \<open>top()\<close> is undefined; every
  call of \<open>top()\<close> and \<open>pop()\<close> in the source is guarded by \<open>!empty()\<close>.
\<close>

fun pq_extract :: "('a \<Rightarrow> 'a \<Rightarrow> bool) \<Rightarrow> 'a \<Rightarrow> 'a list \<Rightarrow> 'a \<times> 'a list" where
  "pq_extract lt x [] = (x, [])"
| "pq_extract lt x (y # ys) =
     (if lt x y
      then (case pq_extract lt y ys of (m, rest) \<Rightarrow> (m, x # rest))
      else (case pq_extract lt x ys of (m, rest) \<Rightarrow> (m, y # rest)))"

definition pq_push :: "'a \<Rightarrow> 'a list \<Rightarrow> 'a list" where
  "pq_push x q = q @ [x]"

definition pq_top :: "('a \<Rightarrow> 'a \<Rightarrow> bool) \<Rightarrow> 'a list \<Rightarrow> 'a option" where
  "pq_top lt q = (case q of [] \<Rightarrow> None | x # xs \<Rightarrow> Some (fst (pq_extract lt x xs)))"

definition pq_pop :: "('a \<Rightarrow> 'a \<Rightarrow> bool) \<Rightarrow> 'a list \<Rightarrow> 'a list" where
  "pq_pop lt q = (case q of [] \<Rightarrow> [] | x # xs \<Rightarrow> snd (pq_extract lt x xs))"

text \<open>The elements of a queue in the order in which successive pops deliver them.\<close>

function drain :: "('a \<Rightarrow> 'a \<Rightarrow> bool) \<Rightarrow> 'a list \<Rightarrow> 'a list" where
  "drain lt q =
     (case pq_top lt q of
        None \<Rightarrow> []
      | Some t \<Rightarrow> t # drain lt (pq_pop lt q))"
  by pat_completeness auto
termination
proof (relation "measure (\<lambda>(lt, q). length q)")
  show "wf (measure (\<lambda>(lt :: 'a \<Rightarrow> 'a \<Rightarrow> bool, q). length q))"
    by simp
next
  fix lt :: "'a \<Rightarrow> 'a \<Rightarrow> bool" and q :: "'a list" and t :: 'a
  assume top: "pq_top lt q = Some t"
  have len: "length (snd (pq_extract lt x xs)) = length xs" for x xs
    by (induction xs arbitrary: x) (simp_all add: split_beta)
  from top have "length (pq_pop lt q) < length q"
    by (cases q) (simp_all add: pq_top_def pq_pop_def len)
  then show "((lt, pq_pop lt q), (lt, q)) \<in> measure (\<lambda>(lt, q). length q)"
    by simp
qed

section \<open>scheduler/priority_scheduler.hpp\<close>

text \<open>
  A task's callable takes no argument and returns nothing: it acts on the
  state it shares with the rest of the program, of type \<open>'s\<close>. What a callable
  has done before it throws stays done, and the worker swallows the exception,
  so a callable is a total function on the shared state. \<open>priority\<close> is an
  \<open>int\<close> that is only ever compared.
\<close>

record 's Task =
  func :: "'s \<Rightarrow> 's"
  priority :: int
  schedule_time :: time_point
  task_id :: size_t

text \<open>\<open>Task::operator<\<close>\<close>

definition task_less :: "'s Task \<Rightarrow> 's Task \<Rightarrow> bool" where
  "task_less a b =
     (if priority a \<noteq> priority b then priority a < priority b
      else schedule_time a > schedule_time b)"

text \<open>
  The fields \<open>tasks_\<close>, \<open>workers_\<close>, \<open>stop_\<close> and \<open>next_task_id_\<close>;
  \<open>ps_workers\<close> is the number of worker threads. The mutex serialises the
  member functions, each of which is one step of the model.
\<close>

record 's PriorityScheduler =
  ps_tasks :: "'s Task list"
  ps_workers :: nat
  ps_stop :: bool
  next_task_id :: size_t

definition PriorityScheduler_new :: "nat \<Rightarrow> 's PriorityScheduler" where
  "PriorityScheduler_new thread_count =
     \<lparr>ps_tasks = [], ps_workers = thread_count, ps_stop = False, next_task_id = 0\<rparr>"

definition schedule_at :: "('s \<Rightarrow> 's) \<Rightarrow> time_point \<Rightarrow> int \<Rightarrow> 's PriorityScheduler
    \<Rightarrow> size_t \<times> 's PriorityScheduler" where
  "schedule_at f time prio s =
     (let task = \<lparr>func = f, priority = prio, schedule_time = time,
                  task_id = next_task_id s\<rparr>
      in (task_id task,
          s\<lparr>next_task_id := next_task_id s + 1,
            ps_tasks := pq_push task (ps_tasks s)\<rparr>))"

text \<open>\<open>now\<close> is the reading of \<open>steady_clock::now()\<close> at the call.\<close>

definition schedule :: "time_point \<Rightarrow> ('s \<Rightarrow> 's) \<Rightarrow> int \<Rightarrow> 's PriorityScheduler
    \<Rightarrow> size_t \<times> 's PriorityScheduler" where
  "schedule now f prio s = schedule_at f now prio s"

definition schedule_after :: "time_point \<Rightarrow> ('s \<Rightarrow> 's) \<Rightarrow> int \<Rightarrow> int \<Rightarrow> 's PriorityScheduler
    \<Rightarrow> size_t \<times> 's PriorityScheduler" where
  "schedule_after now f delay prio s = schedule_at f (now + delay) prio s"

text \<open>
  The first loop of \<open>cancel\<close>: \<open>q\<close> is \<open>tasks_\<close>, which it empties pop by pop;
  \<open>temp\<close> and \<open>found\<close> are its locals.
\<close>

function cancel_loop :: "size_t \<Rightarrow> 's Task list \<Rightarrow> 's Task list \<Rightarrow> bool
    \<Rightarrow> 's Task list \<times> bool" where
  "cancel_loop tid q temp found =
     (case pq_top task_less q of
        None \<Rightarrow> (temp, found)
      | Some task \<Rightarrow>
          if task_id task \<noteq> tid
          then cancel_loop tid (pq_pop task_less q) (temp @ [task]) found
          else cancel_loop tid (pq_pop task_less q) temp True)"
  by pat_completeness auto
termination
proof (relation "measure (\<lambda>(tid, q, temp, found). length q)")
  show "wf (measure (\<lambda>(tid :: size_t, q :: 's Task list, temp :: 's Task list, found :: bool).
      length q))"
    by simp
next
  fix tid :: size_t and q temp :: "'s Task list" and found :: bool and task :: "'s Task"
  assume top: "pq_top task_less q = Some task"
  have len: "length (snd (pq_extract task_less x xs)) = length xs"
    for x :: "'s Task" and xs
    by (induction xs arbitrary: x) (simp_all add: split_beta)
  from top have shorter: "length (pq_pop task_less q) < length q"
    by (cases q) (simp_all add: pq_top_def pq_pop_def len)
  {
    assume "task_id task \<noteq> tid"
    from shorter show "((tid, pq_pop task_less q, temp @ [task], found), (tid, q, temp, found))
        \<in> measure (\<lambda>(tid, q, temp, found). length q)"
      by simp
  next
    assume "\<not> task_id task \<noteq> tid"
    from shorter show "((tid, pq_pop task_less q, temp, True), (tid, q, temp, found))
        \<in> measure (\<lambda>(tid, q, temp, found). length q)"
      by simp
  }
qed

text \<open>The second loop pushes the tasks of \<open>temp\<close> back, first to last.\<close>

definition cancel :: "size_t \<Rightarrow> 's PriorityScheduler \<Rightarrow> bool \<times> 's PriorityScheduler" where
  "cancel tid s =
     (case cancel_loop tid (ps_tasks s) [] False of
        (temp, found) \<Rightarrow> (found, s\<lparr>ps_tasks := foldl (\<lambda>q task. pq_push task q) [] temp\<rparr>))"

definition pending_tasks :: "'s PriorityScheduler \<Rightarrow> nat" where
  "pending_tasks s = length (ps_tasks s)"

text \<open>
  One pass through the body of \<open>while (true)\<close> in \<open>worker_loop\<close>. \<open>now1\<close> is
  the clock as the predicate of the wait reads it, \<open>now2\<close> as the \<open>if\<close> after
  it does. \<open>Waiting\<close>: the predicate is false and the thread sleeps on the
  condition variable. \<open>Returned\<close>: the worker leaves \<open>worker_loop\<close>.
  \<open>Executed\<close>: it has popped the top task and run its callable. \<open>Skipped\<close>:
  it goes round the loop without running anything.
\<close>

datatype pass = Waiting | Returned | Executed | Skipped

definition top_is_due :: "time_point \<Rightarrow> 's Task list \<Rightarrow> bool" where
  "top_is_due now q =
     (case pq_top task_less q of None \<Rightarrow> False | Some t \<Rightarrow> schedule_time t \<le> now)"

definition worker_pass :: "time_point \<Rightarrow> time_point \<Rightarrow> 's PriorityScheduler \<times> 's
    \<Rightarrow> pass \<times> 's PriorityScheduler \<times> 's" where
  "worker_pass now1 now2 st =
     (case st of (s, shared) \<Rightarrow>
        if \<not> (ps_stop s \<or> top_is_due now1 (ps_tasks s)) then (Waiting, s, shared)
        else if ps_stop s \<and> ps_tasks s = [] then (Returned, s, shared)
        else if top_is_due now2 (ps_tasks s)
        then (case pq_top task_less (ps_tasks s) of
                None \<Rightarrow> (Skipped, s, shared)
              | Some task \<Rightarrow>
                  (Executed, s\<lparr>ps_tasks := pq_pop task_less (ps_tasks s)\<rparr>, func task shared))
        else (Skipped, s, shared))"


text \<open>
  The part of a pass that runs under the mutex, up to \<open>lock.unlock()\<close>: the
  outcome of the pass, the scheduler as the worker leaves it, and the task
  that it has popped. The worker calls \<open>task.func()\<close> after the unlock, outside
  the mutex.
\<close>

definition worker_pop :: "time_point \<Rightarrow> time_point \<Rightarrow> 's PriorityScheduler
    \<Rightarrow> pass \<times> 's PriorityScheduler \<times> 's Task option" where
  "worker_pop now1 now2 s =
     (if \<not> (ps_stop s \<or> top_is_due now1 (ps_tasks s)) then (Waiting, s, None)
      else if ps_stop s \<and> ps_tasks s = [] then (Returned, s, None)
      else if top_is_due now2 (ps_tasks s)
      then (case pq_top task_less (ps_tasks s) of
              None \<Rightarrow> (Skipped, s, None)
            | Some task \<Rightarrow>
                (Executed, s\<lparr>ps_tasks := pq_pop task_less (ps_tasks s)\<rparr>, Some task))
      else (Skipped, s, None))"



text \<open>
  A run of the scheduler: calls of its clients and passes of its workers in
  the order in which they take the mutex.
\<close>

datatype 's call = Schedule_at "'s \<Rightarrow> 's" time_point int | Cancel size_t
  | Worker time_point time_point

fun ps_call :: "'s call \<Rightarrow> 's PriorityScheduler \<times> 's \<Rightarrow> 's PriorityScheduler \<times> 's" where
  "ps_call (Schedule_at f time prio) (s, shared) = (snd (schedule_at f time prio s), shared)"
| "ps_call (Cancel tid) (s, shared) = (snd (cancel tid s), shared)"
| "ps_call (Worker now1 now2) (s, shared) = snd (worker_pass now1 now2 (s, shared))"

fun ps_run :: "'s call list \<Rightarrow> 's PriorityScheduler \<times> 's \<Rightarrow> 's PriorityScheduler \<times> 's" where
  "ps_run [] st = st"
| "ps_run (c # cs) st = ps_run cs (ps_call c st)"

text \<open>
  The callable of the priority scenario: it appends its priority to the shared
  vector.
\<close>

definition append_priority :: "int \<Rightarrow> int list \<Rightarrow> int list" where
  "append_priority p v = v @ [p]"

text \<open>What \<open>operator<\<close> compares of a task.\<close>

definition task_key :: "'s Task \<Rightarrow> int \<times> time_point" where
  "task_key t = (priority t, schedule_time t)"


text \<open>
  The ids of the pending tasks differ from one another and have all been
  handed out by \<open>next_task_id_++\<close> already.
\<close>

definition ids_fresh :: "'s PriorityScheduler \<Rightarrow> bool" where
  "ids_fresh s =
     (distinct (map task_id (ps_tasks s))
      \<and> list_all (\<lambda>t. unat (task_id t) < unat (next_task_id s)) (ps_tasks s))"

section \<open>executor/thread_pool_executor.hpp\<close>

text \<open>
  The executor's own \<open>Task\<close>: a callable, a priority and a schedule time, with
  the same \<open>operator<\<close> as the scheduler's.
\<close>

record 's ExecutorTask =
  et_func :: "'s \<Rightarrow> 's"
  et_priority :: int
  et_schedule_time :: time_point

definition executor_task_less :: "'s ExecutorTask \<Rightarrow> 's ExecutorTask \<Rightarrow> bool" where
  "executor_task_less a b =
     (if et_priority a \<noteq> et_priority b then et_priority a < et_priority b
      else et_schedule_time a > et_schedule_time b)"

record 's ThreadPoolExecutor =
  tp_workers :: nat
  tp_tasks :: "'s ExecutorTask list"
  tp_stop :: bool
  max_queue_size :: size_t
  task_pool :: "'s ExecutorTask MemoryPool"

text \<open>The default of the constructor's parameter \<open>max_queue_size\<close>.\<close>

definition default_max_queue_size :: size_t where
  "default_max_queue_size = 10000"

definition ThreadPoolExecutor_new :: "nat \<Rightarrow> size_t \<Rightarrow> 's ThreadPoolExecutor" where
  "ThreadPoolExecutor_new thread_count max_queue =
     \<lparr>tp_workers = thread_count, tp_tasks = [], tp_stop = False,
      max_queue_size = max_queue, task_pool = MemoryPool_new\<rparr>"

text \<open>
  \<open>submit\<close>, \<open>submit_with_priority\<close> and \<open>schedule_after\<close> throw
  \<open>std::runtime_error("Task queue is full")\<close> when
  \<open>tasks_.size() >= max_queue_size_\<close>, and otherwise hand \<open>tasks_.push\<close> the
  \<open>Task*\<close> that \<open>task_pool_->allocate\<close> returns. \<open>tasks_\<close> is a
  \<open>std::priority_queue<Task>\<close> and a \<open>Task*\<close> does not convert to a \<open>Task\<close>,
  so none of the three templates can be instantiated: a program that calls one
  of them does not compile. They have no model here; the constructor and
  \<open>queue_size\<close> have.
\<close>

definition queue_size :: "'s ThreadPoolExecutor \<Rightarrow> nat" where
  "queue_size e = length (tp_tasks e)"

section \<open>Atomic pointers\<close>

text \<open>
  The queue and the channel are run by one thread at a time: the loads, stores
  and compare-and-swaps of a call follow one another with nothing in between.
  \<open>compare_exchange_weak\<close> is taken not to fail spuriously, so it is the same
  as \<open>compare_exchange_strong\<close>: it succeeds exactly when the atomic holds
  the expected value, and on failure it writes the value found into
  \<open>expected\<close>. \<open>cas_ptr current expected desired\<close> gives the outcome, the new
  value of the atomic and the new value of \<open>expected\<close>.
\<close>

definition cas_ptr :: "'v \<Rightarrow> 'v \<Rightarrow> 'v \<Rightarrow> bool \<times> 'v \<times> 'v" where
  "cas_ptr current expected desired =
     (if current = expected then (True, desired, expected) else (False, current, current))"

text \<open>
  A node of the queue; the channel's node extends it by the \<open>committed\<close>
  flag. The nodes live in the blocks of the pool. The result \<open>None\<close> of an
  access is the access through a null pointer or to a block that holds no
  node.
\<close>

record 'a Node =
  node_next :: "addr option"
  node_data :: 'a

definition load_next :: "addr option \<Rightarrow> ('a, 'z) Node_scheme MemoryPool \<Rightarrow> addr option option" where
  "load_next p pool =
     (case p of None \<Rightarrow> None | Some a \<Rightarrow> map_option node_next (objects pool a))"

definition load_data :: "addr option \<Rightarrow> ('a, 'z) Node_scheme MemoryPool \<Rightarrow> 'a option" where
  "load_data p pool =
     (case p of None \<Rightarrow> None | Some a \<Rightarrow> map_option node_data (objects pool a))"

definition store_next :: "addr option \<Rightarrow> addr option \<Rightarrow> ('a, 'z) Node_scheme MemoryPool
    \<Rightarrow> ('a, 'z) Node_scheme MemoryPool option" where
  "store_next p v pool =
     (case p of
        None \<Rightarrow> None
      | Some a \<Rightarrow>
          (case objects pool a of
             None \<Rightarrow> None
           | Some n \<Rightarrow> Some (pool\<lparr>objects := (objects pool)(a \<mapsto> n\<lparr>node_next := v\<rparr>)\<rparr>)))"

definition store_data :: "addr option \<Rightarrow> 'a \<Rightarrow> ('a, 'z) Node_scheme MemoryPool
    \<Rightarrow> ('a, 'z) Node_scheme MemoryPool option" where
  "store_data p v pool =
     (case p of
        None \<Rightarrow> None
      | Some a \<Rightarrow>
          (case objects pool a of
             None \<Rightarrow> None
           | Some n \<Rightarrow> Some (pool\<lparr>objects := (objects pool)(a \<mapsto> n\<lparr>node_data := v\<rparr>)\<rparr>)))"

text \<open>\<open>p->next.compare_exchange(expected, desired)\<close>: the outcome, \<open>expected\<close>, the pool.\<close>

definition cas_next :: "addr option \<Rightarrow> addr option \<Rightarrow> addr option
    \<Rightarrow> ('a, 'z) Node_scheme MemoryPool
    \<Rightarrow> (bool \<times> addr option \<times> ('a, 'z) Node_scheme MemoryPool) option" where
  "cas_next p expected desired pool =
     (case load_next p pool of
        None \<Rightarrow> None
      | Some current \<Rightarrow>
          if current = expected
          then map_option (\<lambda>pool'. (True, expected, pool')) (store_next p desired pool)
          else Some (False, current, pool))"

section \<open>lockfree/mpmc_queue.hpp\<close>

text \<open>
  The fields \<open>capacity_\<close>, \<open>size_\<close>, \<open>head_\<close>, \<open>tail_\<close> and \<open>pool_\<close>. The
  element type has a zero, which stands for the value-initialised \<open>T{}\<close> of
  the dummy node. A call returns \<open>None\<close> when it does not return: it reads
  through a null or dead pointer or it loops for ever.
\<close>

record 'a MPMCQueue =
  q_capacity :: size_t
  q_size :: size_t
  q_head :: "addr option"
  q_tail :: "addr option"
  q_pool :: "'a Node MemoryPool"

definition MPMCQueue_new :: "size_t \<Rightarrow> ('a::zero) MPMCQueue option" where
  "MPMCQueue_new capacity =
     (case allocate \<lparr>node_next = None, node_data = 0\<rparr> MemoryPool_new of
        None \<Rightarrow> None
      | Some (dummy, pool) \<Rightarrow>
          Some \<lparr>q_capacity = capacity, q_size = 0, q_head = Some dummy, q_tail = Some dummy,
                q_pool = pool\<rparr>)"

text \<open>
  The loop of \<open>try_enqueue\<close>; \<open>tail\<close> is its local. It returns \<open>tail\<close> as it is
  at the \<open>break\<close>.
\<close>

partial_function (option) enqueue_loop :: "addr \<Rightarrow> addr option \<Rightarrow> 'a MPMCQueue
    \<Rightarrow> (addr option \<times> 'a MPMCQueue) option" where
  "enqueue_loop node tail q =
     (case load_next tail (q_pool q) of
        None \<Rightarrow> None
      | Some next \<Rightarrow>
          if tail = q_tail q
          then
            if next = None
            then
              (case cas_next tail next (Some node) (q_pool q) of
                 None \<Rightarrow> None
               | Some (ok, next', pool') \<Rightarrow>
                   if ok then Some (tail, q\<lparr>q_pool := pool'\<rparr>)
                   else enqueue_loop node (q_tail q) (q\<lparr>q_pool := pool'\<rparr>))
            else
              (case cas_ptr (q_tail q) tail next of
                 (ok, tail_', tail') \<Rightarrow> enqueue_loop node tail_' (q\<lparr>q_tail := tail_'\<rparr>))
          else enqueue_loop node (q_tail q) q)"

definition try_enqueue :: "'a \<Rightarrow> ('a::zero) MPMCQueue \<Rightarrow> (bool \<times> 'a MPMCQueue) option" where
  "try_enqueue value q =
     (if q_capacity q \<le> q_size q then Some (False, q)
      else
        case allocate \<lparr>node_next = None, node_data = 0\<rparr> (q_pool q) of
          None \<Rightarrow> None
        | Some (node, pool1) \<Rightarrow>
            (case store_data (Some node) value pool1 of
               None \<Rightarrow> None
             | Some pool2 \<Rightarrow>
                 (case store_next (Some node) None pool2 of
                    None \<Rightarrow> None
                  | Some pool3 \<Rightarrow>
                      (case enqueue_loop node (q_tail q) (q\<lparr>q_pool := pool3\<rparr>) of
                         None \<Rightarrow> None
                       | Some (tail, q1) \<Rightarrow>
                           (case cas_ptr (q_tail q1) tail (Some node) of
                              (ok, tail_', tail') \<Rightarrow>
                                Some (True, q1\<lparr>q_tail := tail_', q_size := q_size q1 + 1\<rparr>))))))"

text \<open>
  The loop of \<open>try_dequeue\<close>; \<open>value\<close> is the caller's variable behind the
  reference, \<open>head\<close> and \<open>tail\<close> are the locals. The result is \<open>False\<close> at
  the \<open>return false\<close> and \<open>True\<close> at the \<open>break\<close>, with \<open>value\<close> and \<open>head\<close>
  as they are there.
\<close>

partial_function (option) dequeue_loop :: "'a \<Rightarrow> addr option \<Rightarrow> addr option \<Rightarrow> 'a MPMCQueue
    \<Rightarrow> (bool \<times> 'a \<times> addr option \<times> 'a MPMCQueue) option" where
  "dequeue_loop value head tail q =
     (case load_next head (q_pool q) of
        None \<Rightarrow> None
      | Some next \<Rightarrow>
          if head = q_head q
          then
            if head = tail
            then
              if next = None then Some (False, value, head, q)
              else
                (case cas_ptr (q_tail q) tail next of
                   (ok, tail_', tail') \<Rightarrow>
                     dequeue_loop value (q_head q) tail' (q\<lparr>q_tail := tail_'\<rparr>))
            else
              (case load_data next (q_pool q) of
                 None \<Rightarrow> None
               | Some value' \<Rightarrow>
                   (case cas_ptr (q_head q) head next of
                      (ok, head_', head') \<Rightarrow>
                        if ok then Some (True, value', head, q\<lparr>q_head := head_'\<rparr>)
                        else dequeue_loop value' head_' tail (q\<lparr>q_head := head_'\<rparr>)))
          else dequeue_loop value (q_head q) tail q)"

definition try_dequeue :: "'a \<Rightarrow> 'a MPMCQueue \<Rightarrow> (bool \<times> 'a \<times> 'a MPMCQueue) option" where
  "try_dequeue value q =
     (if q_size q = 0 then Some (False, value, q)
      else
        case dequeue_loop value (q_head q) (q_tail q) q of
          None \<Rightarrow> None
        | Some (found, value', head, q1) \<Rightarrow>
            if found
            then Some (True, value',
                       q1\<lparr>q_pool := deallocate head (q_pool q1), q_size := q_size q1 - 1\<rparr>)
            else Some (False, value', q1))"

definition mpmc_size :: "'a MPMCQueue \<Rightarrow> size_t" where
  "mpmc_size q = q_size q"

text \<open>
  The shape of a queue that no call is working on. \<open>chain st a as\<close>: in the
  store \<open>st\<close> the \<open>next\<close> links lead from the node \<open>a\<close> through the nodes
  \<open>as\<close> to a null link. \<open>pool_ok p used\<close>: the free blocks of the pool are
  distinct, none of them is in use, and all blocks lie in the pool's chunks.
  \<open>queue_inv q h xs\<close>: the dummy node is \<open>h\<close>, the nodes after it are \<open>xs\<close>,
  \<open>tail_\<close> points into the chain and \<open>size_\<close> counts \<open>xs\<close>.
  \<open>node_values\<close> reads the values the nodes carry.
\<close>

fun chain :: "(addr \<rightharpoonup> ('a, 'z) Node_scheme) \<Rightarrow> addr \<Rightarrow> addr list \<Rightarrow> bool" where
  "chain st a [] = (case st a of None \<Rightarrow> False | Some n \<Rightarrow> node_next n = None)"
| "chain st a (b # bs) =
     ((case st a of None \<Rightarrow> False | Some n \<Rightarrow> node_next n = Some b) \<and> chain st b bs)"

definition pool_ok :: "'n MemoryPool \<Rightarrow> addr list \<Rightarrow> bool" where
  "pool_ok p used =
     (distinct (free_list p)
      \<and> list_all (\<lambda>a. a \<notin> set (free_list p)) used
      \<and> list_all (\<lambda>a. a < chunks p * blocks_per_chunk) (free_list p @ used))"

definition queue_inv :: "'a MPMCQueue \<Rightarrow> addr \<Rightarrow> addr list \<Rightarrow> bool" where
  "queue_inv q h xs =
     (q_head q = Some h
      \<and> chain (objects (q_pool q)) h xs
      \<and> distinct (h # xs)
      \<and> (case q_tail q of None \<Rightarrow> False | Some t \<Rightarrow> t \<in> set (h # xs))
      \<and> unat (q_size q) = length xs
      \<and> pool_ok (q_pool q) (h # xs))"

definition node_values :: "('a, 'z) Node_scheme MemoryPool \<Rightarrow> addr list \<Rightarrow> 'a option list" where
  "node_values pool xs = map (\<lambda>a. map_option node_data (objects pool a)) xs"

text \<open>
  A single-threaded run of the queue: a sequence of calls, each with its
  outcome. \<open>Enqueued b\<close> is the result \<open>b\<close> of \<open>try_enqueue\<close>;
  \<open>Dequeued (Some v)\<close> is \<open>try_dequeue\<close> returning \<open>true\<close> with \<open>v\<close> in its
  argument, \<open>Dequeued None\<close> is it returning \<open>false\<close>. Each \<open>try_dequeue\<close>
  gets a fresh variable holding zero.
\<close>

datatype 'a q_op = Enqueue 'a | Dequeue

datatype 'a q_result = Enqueued bool | Dequeued "'a option"

fun q_run :: "('a::zero) q_op list \<Rightarrow> 'a MPMCQueue \<Rightarrow> ('a q_result list \<times> 'a MPMCQueue) option" where
  "q_run [] q = Some ([], q)"
| "q_run (Enqueue v # ops) q =
     (case try_enqueue v q of
        None \<Rightarrow> None
      | Some (ok, q1) \<Rightarrow>
          (case q_run ops q1 of
             None \<Rightarrow> None
           | Some (rs, q2) \<Rightarrow> Some (Enqueued ok # rs, q2)))"
| "q_run (Dequeue # ops) q =
     (case try_dequeue 0 q of
        None \<Rightarrow> None
      | Some (ok, v, q1) \<Rightarrow>
          (case q_run ops q1 of
             None \<Rightarrow> None
           | Some (rs, q2) \<Rightarrow> Some (Dequeued (if ok then Some v else None) # rs, q2)))"

text \<open>
  The bounded FIFO of the specification, for comparison: a list of at most
  \<open>c\<close> values, oldest first. An enqueue fails when the list holds \<open>c\<close>
  values and appends otherwise; a dequeue fails on the empty list and takes the
  first value otherwise.
\<close>

fun fifo_apply :: "nat \<Rightarrow> 'a q_op \<Rightarrow> 'a list \<Rightarrow> 'a q_result \<times> 'a list" where
  "fifo_apply c (Enqueue v) xs =
     (if c \<le> length xs then (Enqueued False, xs) else (Enqueued True, xs @ [v]))"
| "fifo_apply c Dequeue [] = (Dequeued None, [])"
| "fifo_apply c Dequeue (x # xs) = (Dequeued (Some x), xs)"

fun fifo_run :: "nat \<Rightarrow> 'a q_op list \<Rightarrow> 'a list \<Rightarrow> 'a q_result list \<times> 'a list" where
  "fifo_run c [] xs = ([], xs)"
| "fifo_run c (op # ops) xs =
     (case fifo_apply c op xs of
        (r, xs') \<Rightarrow> (case fifo_run c ops xs' of (rs, xs'') \<Rightarrow> (r # rs, xs'')))"

section \<open>lockfree/mpmc_channel.hpp\<close>

text \<open>
  The channel's node has the fields \<open>next\<close>, \<open>data\<close> and \<open>committed\<close>.
  \<open>Node_default\<close> is the constructor \<open>Node()\<close>, \<open>Node_value\<close> is
  \<open>Node(const T& value)\<close>.
\<close>

record 'a ChannelNode = "'a Node" +
  committed :: bool

definition Node_default :: "('a::zero) ChannelNode" where
  "Node_default = \<lparr>node_next = None, node_data = 0, committed = False\<rparr>"

definition Node_value :: "'a \<Rightarrow> 'a ChannelNode" where
  "Node_value value = \<lparr>node_next = None, node_data = value, committed = True\<rparr>"

record 'a MPMCChannel =
  ch_capacity :: size_t
  ch_size :: size_t
  ch_head :: "addr option"
  ch_tail :: "addr option"
  ch_pool :: "'a ChannelNode MemoryPool"

definition MPMCChannel_new :: "size_t \<Rightarrow> ('a::zero) MPMCChannel option" where
  "MPMCChannel_new capacity =
     (case allocate Node_default MemoryPool_new of
        None \<Rightarrow> None
      | Some (dummy, pool) \<Rightarrow>
          Some \<lparr>ch_capacity = capacity, ch_size = 0, ch_head = Some dummy,
                ch_tail = Some dummy, ch_pool = pool\<rparr>)"

text \<open>
  \<open>try_send_impl\<close> up to the loop: \<open>send_allocate\<close> is the statement
  \<open>auto new_node = pool_.allocate(std::forward<U>(value))\<close>. \<open>send_loop\<close> is
  the loop, with the locals \<open>tail\<close> and \<open>next\<close>.
\<close>

definition send_allocate :: "'a \<Rightarrow> 'a MPMCChannel \<Rightarrow> (addr \<times> 'a MPMCChannel) option" where
  "send_allocate value ch =
     (case allocate (Node_value value) (ch_pool ch) of
        None \<Rightarrow> None
      | Some (new_node, pool) \<Rightarrow> Some (new_node, ch\<lparr>ch_pool := pool\<rparr>))"

partial_function (option) send_loop :: "addr \<Rightarrow> addr option \<Rightarrow> addr option \<Rightarrow> 'a MPMCChannel
    \<Rightarrow> (bool \<times> 'a MPMCChannel) option" where
  "send_loop new_node tail next ch =
     (if tail = ch_tail ch
      then
        if next = None
        then
          (case cas_next tail next (Some new_node) (ch_pool ch) of
             None \<Rightarrow> None
           | Some (ok, next', pool') \<Rightarrow>
               if ok
               then
                 (case cas_ptr (ch_tail ch) tail (Some new_node) of
                    (ok2, tail_', tail') \<Rightarrow>
                      Some (True, ch\<lparr>ch_pool := pool', ch_tail := tail_',
                                     ch_size := ch_size ch + 1\<rparr>))
               else
                 (case load_next (ch_tail ch) pool' of
                    None \<Rightarrow> None
                  | Some n \<Rightarrow> send_loop new_node (ch_tail ch) n (ch\<lparr>ch_pool := pool'\<rparr>)))
        else
          (case cas_ptr (ch_tail ch) tail next of
             (ok, tail_', tail') \<Rightarrow>
               (case load_next tail_' (ch_pool ch) of
                  None \<Rightarrow> None
                | Some n \<Rightarrow> send_loop new_node tail_' n (ch\<lparr>ch_tail := tail_'\<rparr>)))
      else
        (case load_next (ch_tail ch) (ch_pool ch) of
           None \<Rightarrow> None
         | Some n \<Rightarrow> send_loop new_node (ch_tail ch) n ch))"

definition try_send_impl :: "'a \<Rightarrow> 'a MPMCChannel \<Rightarrow> (bool \<times> 'a MPMCChannel) option" where
  "try_send_impl value ch =
     (if ch_capacity ch \<le> ch_size ch then Some (False, ch)
      else
        case send_allocate value ch of
          None \<Rightarrow> None
        | Some (new_node, ch1) \<Rightarrow>
            (case load_next (ch_tail ch1) (ch_pool ch1) of
               None \<Rightarrow> None
             | Some next \<Rightarrow> send_loop new_node (ch_tail ch1) next ch1))"

text \<open>
  The loop of \<open>try_receive_impl\<close>, with the locals \<open>head\<close> and \<open>next\<close>. The
  \<open>std::move\<close> of the data is a copy that leaves the node as it is.
\<close>

partial_function (option) receive_loop :: "addr option \<Rightarrow> addr option \<Rightarrow> 'a MPMCChannel
    \<Rightarrow> ('a option \<times> 'a MPMCChannel) option" where
  "receive_loop head next ch =
     (if head = ch_head ch
      then
        if next = None then Some (None, ch)
        else
          (case load_data next (ch_pool ch) of
             None \<Rightarrow> None
           | Some result \<Rightarrow>
               (case cas_ptr (ch_head ch) head next of
                  (ok, head_', head') \<Rightarrow>
                    if ok
                    then Some (Some result,
                               ch\<lparr>ch_head := head_',
                                  ch_pool := deallocate head (ch_pool ch),
                                  ch_size := ch_size ch - 1\<rparr>)
                    else
                      (case load_next head_' (ch_pool ch) of
                         None \<Rightarrow> None
                       | Some n \<Rightarrow> receive_loop head_' n ch)))
      else
        (case load_next (ch_head ch) (ch_pool ch) of
           None \<Rightarrow> None
         | Some n \<Rightarrow> receive_loop (ch_head ch) n ch))"

definition try_receive_impl :: "'a MPMCChannel \<Rightarrow> ('a option \<times> 'a MPMCChannel) option" where
  "try_receive_impl ch =
     (case load_next (ch_head ch) (ch_pool ch) of
        None \<Rightarrow> None
      | Some next \<Rightarrow> receive_loop (ch_head ch) next ch)"





text \<open>
  The shape of a channel that no call is working on: as for the queue, but
  \<open>tail_\<close> points to the last node (\<open>try_receive_impl\<close> never moves it), and
  every node after the dummy is committed. \<open>channel_ok\<close>: the channel has this
  shape for some chain.
\<close>

definition channel_inv :: "'a MPMCChannel \<Rightarrow> addr \<Rightarrow> addr list \<Rightarrow> bool" where
  "channel_inv ch h xs =
     (ch_head ch = Some h
      \<and> chain (objects (ch_pool ch)) h xs
      \<and> distinct (h # xs)
      \<and> ch_tail ch = Some (last (h # xs))
      \<and> unat (ch_size ch) = length xs
      \<and> list_all (\<lambda>a. case objects (ch_pool ch) a of None \<Rightarrow> False | Some n \<Rightarrow> committed n) xs
      \<and> pool_ok (ch_pool ch) (h # xs))"





section \<open>Properties of the memory pool\<close>

lemma blocks_per_chunk_pos: "0 < blocks_per_chunk"
  by (simp add: blocks_per_chunk_def chunk_size_def sizeof_Block_def)

lemma allocate_chunk_free: "free_list (allocate_chunk p) \<noteq> []"
  using blocks_per_chunk_pos by (simp add: allocate_chunk_def)

lemma allocate_block_Some: "\<exists>ptr p1. allocate_block p = Some (ptr, p1)"
proof (cases "free_list p")
  case Nil
  obtain b rest where "free_list (allocate_chunk p) = b # rest"
    using allocate_chunk_free [of p] by (cases "free_list (allocate_chunk p)") auto
  with Nil show ?thesis by (simp add: allocate_block_def)
next
  case (Cons b rest)
  then show ?thesis by (simp add: allocate_block_def)
qed

lemma allocate_Some: "\<exists>ptr p1. allocate v p = Some (ptr, p1)"
  using allocate_block_Some [of p] by (auto simp: allocate_def)

text \<open>
  C10. \<open>deallocate(nullptr)\<close> does nothing: no object is destroyed, and the
  free list, the chunks and \<open>allocated_size\<close> are as before.
\<close>

theorem deallocate_nullptr_noop:
  "deallocate None p = p
   \<and> objects (deallocate None p) = objects p
   \<and> free_list (deallocate None p) = free_list p
   \<and> chunks (deallocate None p) = chunks p
   \<and> allocated_size (deallocate None p) = allocated_size p"
  by (simp add: deallocate_def)

section \<open>Properties of the work-stealing deque\<close>

lemma ws_apply_stamps_ok:
  assumes "ws_stamps_ok s"
  shows "ws_stamps_ok (ws_apply op s)"
proof (cases s)
  case (Pair q n)
  show ?thesis
  proof (cases op)
    case (Push x)
    from assms Pair have "sorted_wrt (<) (map fst (ws_tasks q))"
      and lt: "\<forall>e \<in> set (ws_tasks q). fst e < n"
      by (simp_all add: ws_stamps_ok_def list_all_iff)
    then have "sorted_wrt (<) (map fst (ws_tasks q) @ [n])"
      by (auto simp: sorted_wrt_append)
    with lt Pair Push show ?thesis
      by (auto simp: ws_stamps_ok_def push_def list_all_iff)
  next
    case Pop
    from assms Pair have s: "sorted_wrt (<) (map fst (ws_tasks q))"
      and lt: "\<forall>e \<in> set (ws_tasks q). fst e < n"
      by (simp_all add: ws_stamps_ok_def list_all_iff)
    show ?thesis
    proof (cases "ws_tasks q" rule: rev_cases)
      case Nil
      with assms Pair Pop show ?thesis by (simp add: try_pop_def)
    next
      case (snoc xs x)
      with s lt Pair Pop show ?thesis
        by (auto simp: ws_stamps_ok_def try_pop_def list_all_iff sorted_wrt_append)
    qed
  next
    case Steal
    from assms Pair have s: "sorted_wrt (<) (map fst (ws_tasks q))"
      and lt: "\<forall>e \<in> set (ws_tasks q). fst e < n"
      by (simp_all add: ws_stamps_ok_def list_all_iff)
    show ?thesis
    proof (cases "ws_tasks q")
      case Nil
      with assms Pair Steal show ?thesis by (simp add: try_steal_def)
    next
      case (Cons x xs)
      with s lt Pair Steal show ?thesis
        by (auto simp: ws_stamps_ok_def try_steal_def list_all_iff)
    qed
  qed
qed

lemma ws_run_stamps_ok: "ws_stamps_ok s \<Longrightarrow> ws_stamps_ok (ws_run ops s)"
  by (induction ops arbitrary: s) (simp_all add: ws_apply_stamps_ok)

lemma ws_new_stamps_ok: "ws_stamps_ok (WorkStealingQueue_new, 0)"
  by (simp add: ws_stamps_ok_def WorkStealingQueue_new_def)

lemma sorted_last_greatest:
  "sorted_wrt (<) (map fst (xs @ [x])) \<Longrightarrow> e \<in> set xs \<Longrightarrow> fst e < (fst x :: nat)"
  by (auto simp: sorted_wrt_append)

lemma sorted_hd_least:
  "sorted_wrt (<) (map fst (x # xs)) \<Longrightarrow> e \<in> set xs \<Longrightarrow> (fst x :: nat) < fst e"
  by auto

text \<open>
  C9. After any sequence of calls on a fresh deque: \<open>push\<close> appends at the
  tail; \<open>try_pop\<close> and \<open>try_steal\<close> fail exactly when the deque is empty;
  otherwise \<open>try_pop\<close> removes and returns the element pushed last among those
  still in the deque (every other one has a smaller stamp) and \<open>try_steal\<close>
  the one pushed first (every other one has a larger stamp).
\<close>

theorem work_stealing_queue_lifo_fifo:
  assumes run: "ws_run ops (WorkStealingQueue_new, 0) = (q, n)"
  shows "ws_tasks (push e q) = ws_tasks q @ [e]
    \<and> (fst (try_pop q) = None \<longleftrightarrow> ws_tasks q = [])
    \<and> (fst (try_steal q) = None \<longleftrightarrow> ws_tasks q = [])
    \<and> (ws_tasks q = [] \<longrightarrow> try_pop q = (None, q) \<and> try_steal q = (None, q))
    \<and> (ws_tasks q \<noteq> [] \<longrightarrow>
         (\<exists>t rest. try_pop q = (Some t, q\<lparr>ws_tasks := rest\<rparr>)
            \<and> ws_tasks q = rest @ [t] \<and> (\<forall>u \<in> set rest. fst u < fst t))
       \<and> (\<exists>t rest. try_steal q = (Some t, q\<lparr>ws_tasks := rest\<rparr>)
            \<and> ws_tasks q = t # rest \<and> (\<forall>u \<in> set rest. fst t < fst u)))"
proof -
  have "ws_stamps_ok (q, n)"
    using ws_run_stamps_ok [OF ws_new_stamps_ok, of ops] run by simp
  then have srt: "sorted_wrt (<) (map fst (ws_tasks q))"
    by (simp add: ws_stamps_ok_def)
  have a: "ws_tasks (push e q) = ws_tasks q @ [e]"
    by (simp add: push_def)
  have b: "fst (try_pop q) = None \<longleftrightarrow> ws_tasks q = []"
    by (simp add: try_pop_def)
  have c: "fst (try_steal q) = None \<longleftrightarrow> ws_tasks q = []"
    by (simp add: try_steal_def)
  have d: "ws_tasks q = [] \<longrightarrow> try_pop q = (None, q) \<and> try_steal q = (None, q)"
    by (simp add: try_pop_def try_steal_def)
  have f: "\<exists>t rest. try_pop q = (Some t, q\<lparr>ws_tasks := rest\<rparr>)
            \<and> ws_tasks q = rest @ [t] \<and> (\<forall>u \<in> set rest. fst u < fst t)"
    if ne: "ws_tasks q \<noteq> []"
  proof -
    from ne obtain rest t where eq: "ws_tasks q = rest @ [t]"
      by (cases "ws_tasks q" rule: rev_cases) auto
    with srt have "\<forall>u \<in> set rest. fst u < fst t"
      using sorted_last_greatest [of rest t] by simp
    moreover from eq have "try_pop q = (Some t, q\<lparr>ws_tasks := rest\<rparr>)"
      by (simp add: try_pop_def)
    ultimately show ?thesis using eq by blast
  qed
  have g: "\<exists>t rest. try_steal q = (Some t, q\<lparr>ws_tasks := rest\<rparr>)
            \<and> ws_tasks q = t # rest \<and> (\<forall>u \<in> set rest. fst t < fst u)"
    if ne: "ws_tasks q \<noteq> []"
  proof -
    from ne obtain t rest where eq: "ws_tasks q = t # rest"
      by (cases "ws_tasks q") auto
    with srt have "\<forall>u \<in> set rest. fst t < fst u"
      using sorted_hd_least [of t rest] by simp
    moreover from eq have "try_steal q = (Some t, q\<lparr>ws_tasks := rest\<rparr>)"
      by (simp add: try_steal_def)
    ultimately show ?thesis using eq by blast
  qed
  from a b c d f g show ?thesis by blast
qed

text \<open>
  The run push a, push b, push c, steal, push d leaves b, c, d: the owner then
  pops d (stamp 3), a thief steals b (stamp 1).
\<close>

theorem work_stealing_queue_lifo_fifo_witness:
  "ws_run [Push (10::nat), Push 20, Push 30, Steal, Push 40] (WorkStealingQueue_new, 0)
     = (\<lparr>ws_tasks = [(1, 20), (2, 30), (3, 40)]\<rparr>, 4)
   \<and> try_pop \<lparr>ws_tasks = [(1, 20), (2, 30), (3, 40::nat)]\<rparr>
       = (Some (3, 40), \<lparr>ws_tasks = [(1::nat, 20), (2, 30)]\<rparr>)
   \<and> try_steal \<lparr>ws_tasks = [(1, 20), (2, 30), (3, 40::nat)]\<rparr>
       = (Some (1, 20), \<lparr>ws_tasks = [(2::nat, 30), (3, 40)]\<rparr>)"
proof -
  have run: "ws_run [Push (10::nat), Push 20, Push 30, Steal, Push 40]
      (WorkStealingQueue_new, 0) = (\<lparr>ws_tasks = [(1, 20), (2, 30), (3, 40)]\<rparr>, 4)"
    by (simp add: WorkStealingQueue_new_def push_def try_steal_def)
  from work_stealing_queue_lifo_fifo [OF run, of "(0, 0)"] show ?thesis
    using run by (simp add: try_pop_def try_steal_def)
qed

section \<open>Properties of the priority queue\<close>

declare drain.simps [simp del] cancel_loop.simps [simp del]

lemma task_less_irrefl: "\<not> task_less a a"
  by (simp add: task_less_def)

lemma task_less_trans: "task_less a b \<Longrightarrow> task_less b c \<Longrightarrow> task_less a c"
  by (auto simp: task_less_def split: if_splits)

lemma task_less_neg_trans: "\<not> task_less a b \<Longrightarrow> \<not> task_less b c \<Longrightarrow> \<not> task_less a c"
  by (auto simp: task_less_def split: if_splits)

lemma not_task_less_iff:
  "\<not> task_less t u \<longleftrightarrow>
     priority u \<le> priority t \<and> (priority u = priority t \<longrightarrow> schedule_time t \<le> schedule_time u)"
  by (auto simp: task_less_def)

lemma pq_extract_mset:
  "pq_extract lt x ys = (m, rest) \<Longrightarrow> add_mset m (mset rest) = add_mset x (mset ys)"
  by (induction ys arbitrary: x m rest) (auto split: if_splits prod.splits)

lemma pq_extract_max:
  "pq_extract task_less x ys = (m, rest) \<Longrightarrow> u \<in> set (x # ys) \<Longrightarrow> \<not> task_less m u"
proof (induction ys arbitrary: x m rest u)
  case Nil
  then show ?case using task_less_irrefl by auto
next
  case (Cons y ys)
  show ?case
  proof (cases "task_less x y")
    case True
    with Cons.prems obtain r where e: "pq_extract task_less y ys = (m, r)"
      by (auto split: prod.splits)
    have my: "\<not> task_less m y" using Cons.IH [OF e, of y] by simp
    show ?thesis
    proof (cases "u = x")
      case True
      with \<open>task_less x y\<close> my task_less_trans show ?thesis by blast
    next
      case False
      with Cons.prems have "u \<in> set (y # ys)" by auto
      with Cons.IH [OF e] show ?thesis .
    qed
  next
    case False
    with Cons.prems obtain r where e: "pq_extract task_less x ys = (m, r)"
      by (auto split: prod.splits)
    have mx: "\<not> task_less m x" using Cons.IH [OF e, of x] by simp
    show ?thesis
    proof (cases "u = y")
      case True
      with False mx task_less_neg_trans show ?thesis by blast
    next
      case False
      with Cons.prems have "u \<in> set (x # ys)" by auto
      with Cons.IH [OF e] show ?thesis .
    qed
  qed
qed

lemma pq_extract_first:
  "\<forall>y \<in> set ys. \<not> lt x y \<Longrightarrow> pq_extract lt x ys = (x, ys)"
  by (induction ys) auto

lemma pq_top_None [simp]: "pq_top lt q = None \<longleftrightarrow> q = []"
  by (simp add: pq_top_def split: list.splits)

lemma pq_top_pop_mset:
  assumes "pq_top lt q = Some t"
  shows "add_mset t (mset (pq_pop lt q)) = mset q"
proof (cases q)
  case Nil
  with assms show ?thesis by (simp add: pq_top_def)
next
  case (Cons x xs)
  with assms have "pq_extract lt x xs = (t, pq_pop lt q)"
    by (simp add: pq_top_def pq_pop_def prod_eq_iff)
  from pq_extract_mset [OF this] Cons show ?thesis by simp
qed

lemma pq_top_max:
  assumes "pq_top task_less q = Some t" and "u \<in> set q"
  shows "\<not> task_less t u"
proof (cases q)
  case Nil
  with assms show ?thesis by simp
next
  case (Cons x xs)
  with assms have "pq_extract task_less x xs = (t, pq_pop task_less q)"
    by (simp add: pq_top_def pq_pop_def prod_eq_iff)
  from pq_extract_max [OF this] assms Cons
  show ?thesis by blast
qed

lemma drain_Nil [simp]: "drain lt [] = []"
  by (simp add: drain.simps pq_top_def)

lemma drain_top:
  "pq_top lt q = Some t \<Longrightarrow> drain lt q = t # drain lt (pq_pop lt q)"
  by (subst drain.simps) simp

lemma mset_drain [simp]: "mset (drain lt q) = mset q"
proof (induction "length q" arbitrary: q)
  case 0
  then show ?case by simp
next
  case (Suc n)
  then obtain t where t: "pq_top lt q = Some t"
    by (cases "pq_top lt q") auto
  from pq_top_pop_mset [OF t] have m: "add_mset t (mset (pq_pop lt q)) = mset q" .
  then have "size (mset q) = Suc (size (mset (pq_pop lt q)))"
    by (metis size_add_mset)
  with Suc.hyps have "n = length (pq_pop lt q)" by simp
  from Suc.hyps(1) [OF this] m show ?case by (simp add: drain_top [OF t])
qed

lemma set_drain [simp]: "set (drain lt q) = set q"
  by (metis mset_drain set_mset_mset)

lemma length_drain [simp]: "length (drain lt q) = length q"
  by (metis mset_drain size_mset)

lemma sorted_drain: "sorted_wrt (\<lambda>a b. \<not> task_less a b) (drain task_less q)"
proof (induction "length q" arbitrary: q)
  case 0
  then show ?case by simp
next
  case (Suc n)
  then obtain t where t: "pq_top task_less q = Some t"
    by (cases "pq_top task_less q") auto
  from pq_top_pop_mset [OF t] have m: "add_mset t (mset (pq_pop task_less q)) = mset q" .
  then have "size (mset q) = Suc (size (mset (pq_pop task_less q)))"
    by (metis size_add_mset)
  with Suc.hyps have "n = length (pq_pop task_less q)" by simp
  from Suc.hyps(1) [OF this]
  have "sorted_wrt (\<lambda>a b. \<not> task_less a b) (drain task_less (pq_pop task_less q))" .
  moreover have "set (pq_pop task_less q) \<subseteq> set q"
    using m by (metis set_mset_mset set_mset_add_mset_insert subset_insertI)
  then have "\<forall>u \<in> set (pq_pop task_less q). \<not> task_less t u"
    using pq_top_max [OF t] by blast
  ultimately show ?case by (simp add: drain_top [OF t])
qed

lemma drain_sorted_id:
  "sorted_wrt (\<lambda>a b. \<not> lt a b) xs \<Longrightarrow> drain lt xs = xs"
proof (induction xs)
  case Nil
  then show ?case by simp
next
  case (Cons x xs)
  then have e: "pq_extract lt x xs = (x, xs)"
    by (intro pq_extract_first) simp
  then have "pq_top lt (x # xs) = Some x" and "pq_pop lt (x # xs) = xs"
    by (simp_all add: pq_top_def pq_pop_def)
  with Cons show ?case by (simp add: drain_top)
qed

lemma cancel_loop_eq:
  "cancel_loop tid q temp found =
     (temp @ filter (\<lambda>t. task_id t \<noteq> tid) (drain task_less q),
      found \<or> (\<exists>t \<in> set q. task_id t = tid))"
proof (induction "length q" arbitrary: q temp found)
  case 0
  then show ?case by (simp add: cancel_loop.simps pq_top_def)
next
  case (Suc n)
  then obtain t where t: "pq_top task_less q = Some t"
    by (cases "pq_top task_less q") auto
  from pq_top_pop_mset [OF t] have m: "add_mset t (mset (pq_pop task_less q)) = mset q" .
  then have "size (mset q) = Suc (size (mset (pq_pop task_less q)))"
    by (metis size_add_mset)
  with Suc.hyps have n: "n = length (pq_pop task_less q)" by simp
  have s: "set q = insert t (set (pq_pop task_less q))"
    using m by (metis set_mset_mset set_mset_add_mset_insert)
  show ?case
    by (subst cancel_loop.simps) (auto simp: t Suc.hyps(1) [OF n] drain_top [OF t] s)
qed

lemma foldl_pq_push: "foldl (\<lambda>q task. pq_push task q) acc temp = acc @ temp"
  by (induction temp arbitrary: acc) (simp_all add: pq_push_def)

lemma cancel_eq:
  "cancel tid s =
     ((\<exists>t \<in> set (ps_tasks s). task_id t = tid),
      s\<lparr>ps_tasks := filter (\<lambda>t. task_id t \<noteq> tid) (drain task_less (ps_tasks s))\<rparr>)"
  by (simp add: cancel_def cancel_loop_eq foldl_pq_push)

lemma drain_cancel:
  "drain task_less (filter P (drain task_less q)) = filter P (drain task_less q)"
  by (intro drain_sorted_id sorted_wrt_filter sorted_drain)


lemma pq_pop_set: "set (pq_pop lt q) \<subseteq> set q"
proof (cases "pq_top lt q")
  case None
  then show ?thesis by (simp add: pq_pop_def)
next
  case (Some t)
  from pq_top_pop_mset [OF Some] show ?thesis
    by (metis set_mset_mset set_mset_add_mset_insert subset_insertI)
qed

lemma pq_top_in_set: "pq_top lt q = Some t \<Longrightarrow> t \<in> set q"
  using pq_top_pop_mset [of lt q t] by (metis set_mset_mset union_single_eq_member)

section \<open>Properties of the priority scheduler\<close>

lemma worker_pass_Executed:
  assumes "worker_pass now1 now2 (s, shared) = (Executed, s', shared')"
  shows "\<exists>task. pq_top task_less (ps_tasks s) = Some task
           \<and> s' = s\<lparr>ps_tasks := pq_pop task_less (ps_tasks s)\<rparr>
           \<and> shared' = func task shared \<and> schedule_time task \<le> now2"
  using assms
  by (auto simp: worker_pass_def top_is_due_def split: if_splits option.splits)

text \<open>
  C5, amended. Whenever a worker pops and runs a task, that task is the top of
  the heap: no pending task has a larger priority, and none of the same
  priority has an earlier schedule time; successive pops deliver the pending
  tasks in this order. On a scheduler with one worker, three tasks of
  priorities 1, 5 and 3 that each append their priority to a shared vector
  leave it as [5, 3, 1], provided all three are pending before the worker's
  first pass.
\<close>

theorem dispatch_priority_then_time:
  "(worker_pass now1 now2 (s, shared) = (Executed, s', shared') \<longrightarrow>
      (\<exists>task. pq_top task_less (ps_tasks s) = Some task
         \<and> mset (ps_tasks s) = add_mset task (mset (ps_tasks s'))
         \<and> shared' = func task shared
         \<and> schedule_time task \<le> now2
         \<and> (\<forall>u \<in> set (ps_tasks s). priority u \<le> priority task
               \<and> (priority u = priority task \<longrightarrow> schedule_time task \<le> schedule_time u))))
   \<and> sorted_wrt (\<lambda>a b. priority b \<le> priority a
         \<and> (priority b = priority a \<longrightarrow> schedule_time a \<le> schedule_time b))
       (drain task_less (ps_tasks s))
   \<and> (t1 \<le> now \<and> t2 \<le> now \<and> t3 \<le> now \<and> now \<le> a1 \<and> now \<le> b1 \<and> now \<le> a2 \<and> now \<le> b2
        \<and> now \<le> a3 \<and> now \<le> b3 \<longrightarrow>
      ps_run [Schedule_at (append_priority 1) t1 1, Schedule_at (append_priority 5) t2 5,
              Schedule_at (append_priority 3) t3 3,
              Worker a1 b1, Worker a2 b2, Worker a3 b3] (PriorityScheduler_new 1, v)
        = (\<lparr>ps_tasks = [], ps_workers = 1, ps_stop = False, next_task_id = 3\<rparr>,
           v @ [5, 3, 1]))"
proof (intro conjI impI)
  assume ex: "worker_pass now1 now2 (s, shared) = (Executed, s', shared')"
  from worker_pass_Executed [OF ex] obtain task where
    top: "pq_top task_less (ps_tasks s) = Some task"
    and s': "s' = s\<lparr>ps_tasks := pq_pop task_less (ps_tasks s)\<rparr>"
    and sh: "shared' = func task shared" and due: "schedule_time task \<le> now2"
    by blast
  have "mset (ps_tasks s) = add_mset task (mset (ps_tasks s'))"
    using pq_top_pop_mset [OF top] s' by simp
  moreover have "\<forall>u \<in> set (ps_tasks s). priority u \<le> priority task
      \<and> (priority u = priority task \<longrightarrow> schedule_time task \<le> schedule_time u)"
    using pq_top_max [OF top] by (simp add: not_task_less_iff)
  ultimately show "\<exists>task. pq_top task_less (ps_tasks s) = Some task
         \<and> mset (ps_tasks s) = add_mset task (mset (ps_tasks s'))
         \<and> shared' = func task shared
         \<and> schedule_time task \<le> now2
         \<and> (\<forall>u \<in> set (ps_tasks s). priority u \<le> priority task
               \<and> (priority u = priority task \<longrightarrow> schedule_time task \<le> schedule_time u))"
    using top sh due by blast
next
  have "sorted_wrt (\<lambda>a b. \<not> task_less a b) (drain task_less (ps_tasks s))"
    by (rule sorted_drain)
  then show "sorted_wrt (\<lambda>a b. priority b \<le> priority a
         \<and> (priority b = priority a \<longrightarrow> schedule_time a \<le> schedule_time b))
       (drain task_less (ps_tasks s))"
    by (simp add: not_task_less_iff)
next
  assume "t1 \<le> now \<and> t2 \<le> now \<and> t3 \<le> now \<and> now \<le> a1 \<and> now \<le> b1 \<and> now \<le> a2 \<and> now \<le> b2
        \<and> now \<le> a3 \<and> now \<le> b3"
  then show "ps_run [Schedule_at (append_priority 1) t1 1, Schedule_at (append_priority 5) t2 5,
              Schedule_at (append_priority 3) t3 3,
              Worker a1 b1, Worker a2 b2, Worker a3 b3] (PriorityScheduler_new 1, v)
        = (\<lparr>ps_tasks = [], ps_workers = 1, ps_stop = False, next_task_id = 3\<rparr>,
           v @ [5, 3, 1])"
    by (simp add: PriorityScheduler_new_def schedule_at_def pq_push_def worker_pass_def
        top_is_due_def pq_top_def pq_pop_def task_less_def append_priority_def)
qed

text \<open>
  The claim as stated promises [5, 3, 1] for every run. The worker waits on
  the condition variable from the construction on and \<open>schedule\<close> notifies it
  after each push: when it takes the mutex before the second submission, it
  runs the task of priority 1 first.
\<close>

theorem dispatch_priority_then_time_counterexample:
  "snd (ps_run [Schedule_at (append_priority 1) 10 1, Worker 11 11,
                Schedule_at (append_priority 5) 12 5, Schedule_at (append_priority 3) 13 3,
                Worker 14 14, Worker 15 15] (PriorityScheduler_new 1, []))
     = [1, 5, 3]"
  by (simp add: PriorityScheduler_new_def schedule_at_def pq_push_def worker_pass_def
      top_is_due_def pq_top_def pq_pop_def task_less_def append_priority_def)

theorem dispatch_priority_then_time_witness:
  "worker_pass 20 20
      (\<lparr>ps_tasks = [\<lparr>func = append_priority 1, priority = 1, schedule_time = 10, task_id = 0\<rparr>,
                    \<lparr>func = append_priority 5, priority = 5, schedule_time = 11, task_id = 1\<rparr>],
        ps_workers = 1, ps_stop = False, next_task_id = 2\<rparr>, [])
     = (Executed,
        \<lparr>ps_tasks = [\<lparr>func = append_priority 1, priority = 1, schedule_time = 10, task_id = 0\<rparr>],
          ps_workers = 1, ps_stop = False, next_task_id = 2\<rparr>, [5])
   \<and> drain task_less
        [\<lparr>func = append_priority 1, priority = 1, schedule_time = 10, task_id = 0\<rparr>,
         \<lparr>func = append_priority 5, priority = 5, schedule_time = 11, task_id = 1\<rparr>]
     = [\<lparr>func = append_priority 5, priority = 5, schedule_time = 11, task_id = 1\<rparr>,
        \<lparr>func = append_priority 1, priority = 1, schedule_time = 10, task_id = 0\<rparr>]
   \<and> ps_run [Schedule_at (append_priority 1) 10 1, Schedule_at (append_priority 5) 11 5,
              Schedule_at (append_priority 3) 12 3,
              Worker 20 20, Worker 20 20, Worker 20 20] (PriorityScheduler_new 1, [])
        = (\<lparr>ps_tasks = [], ps_workers = 1, ps_stop = False, next_task_id = 3\<rparr>, [5, 3, 1])"
  using dispatch_priority_then_time [of 20 20
      "\<lparr>ps_tasks = [\<lparr>func = append_priority 1, priority = 1, schedule_time = 10, task_id = 0\<rparr>,
                    \<lparr>func = append_priority 5, priority = 5, schedule_time = 11, task_id = 1\<rparr>],
        ps_workers = 1, ps_stop = False, next_task_id = 2\<rparr>" "[]"
      "\<lparr>ps_tasks = [\<lparr>func = append_priority 1, priority = 1, schedule_time = 10, task_id = 0\<rparr>],
          ps_workers = 1, ps_stop = False, next_task_id = 2\<rparr>" "[5]"
      10 20 11 12 20 20 20 20 20 20 "[]"]
  by (simp add: worker_pass_def top_is_due_def pq_top_def pq_pop_def task_less_def
      append_priority_def drain.simps)



lemma worker_pass_pop:
  "worker_pass now1 now2 (s, shared)
    = (case worker_pop now1 now2 s of
         (p, s', None) \<Rightarrow> (p, s', shared)
       | (p, s', Some task) \<Rightarrow> (p, s', func task shared))"
  by (auto simp: worker_pass_def worker_pop_def top_is_due_def split: option.splits)









lemma unat_next_id:
  "unat (x :: size_t) + 1 < 2 ^ 64 \<Longrightarrow> unat (x + 1) = unat x + 1"
  using unat_add_lem [of x 1] by simp

lemma distinct_ids_submset:
  assumes sub: "mset q \<subseteq># mset p" and d: "distinct (map f p)"
  shows "distinct (map f q)"
proof -
  from sub obtain r where "mset p = mset q + r"
    by (auto simp: mset_subset_eq_exists_conv)
  moreover obtain rs where "mset rs = r" using ex_mset by blast
  ultimately have "mset p = mset (q @ rs)" by simp
  then have "mset (map f p) = mset (map f (q @ rs))" by (metis mset_map)
  with d have "distinct (map f (q @ rs))" by (metis mset_eq_imp_distinct_iff)
  then show ?thesis by simp
qed

lemma ids_fresh_submset:
  assumes "ids_fresh s" and sub: "mset q \<subseteq># mset (ps_tasks s)"
  shows "ids_fresh (s\<lparr>ps_tasks := q\<rparr>)"
proof -
  from assms have "distinct (map task_id q)"
    by (auto simp: ids_fresh_def intro: distinct_ids_submset)
  moreover from sub have "set q \<subseteq> set (ps_tasks s)"
    by (metis set_mset_mono set_mset_mset)
  ultimately show ?thesis
    using assms(1) by (auto simp: ids_fresh_def list_all_iff)
qed

lemma pq_pop_submset: "mset (pq_pop lt q) \<subseteq># mset q"
proof (cases "pq_top lt q")
  case None
  then show ?thesis by (simp add: pq_pop_def)
next
  case (Some t)
  have "mset (pq_pop lt q) \<subseteq># add_mset t (mset (pq_pop lt q))" by simp
  then show ?thesis using pq_top_pop_mset [OF Some] by simp
qed

lemma ps_call_ids_fresh:
  assumes "ids_fresh s" and "unat (next_task_id s) + 1 < 2 ^ 64"
  shows "ids_fresh (fst (ps_call c (s, shared)))
    \<and> unat (next_task_id s) \<le> unat (next_task_id (fst (ps_call c (s, shared))))
    \<and> unat (next_task_id (fst (ps_call c (s, shared)))) \<le> unat (next_task_id s) + 1"
proof (cases c)
  case (Schedule_at f time prio)
  with assms show ?thesis
    by (auto simp: schedule_at_def pq_push_def ids_fresh_def list_all_iff unat_next_id)
next
  case (Cancel tid)
  have "ids_fresh (s\<lparr>ps_tasks := filter (\<lambda>t. task_id t \<noteq> tid) (drain task_less (ps_tasks s))\<rparr>)"
    by (rule ids_fresh_submset [OF assms(1)]) simp
  with Cancel show ?thesis by (simp add: cancel_eq)
next
  case (Worker now1 now2)
  have "ids_fresh (s\<lparr>ps_tasks := pq_pop task_less (ps_tasks s)\<rparr>)"
    by (rule ids_fresh_submset [OF assms(1)]) (simp add: pq_pop_submset)
  with Worker assms(1) show ?thesis
    by (auto simp: worker_pass_def split: option.splits)
qed

lemma ps_run_ids_fresh:
  "ids_fresh s \<Longrightarrow> unat (next_task_id s) + length cs < 2 ^ 64 \<Longrightarrow>
   ids_fresh (fst (ps_run cs (s, shared)))
   \<and> unat (next_task_id (fst (ps_run cs (s, shared)))) \<le> unat (next_task_id s) + length cs"
proof (induction cs arbitrary: s shared)
  case Nil
  then show ?case by simp
next
  case (Cons c cs)
  obtain s1 sh1 where c: "ps_call c (s, shared) = (s1, sh1)" by (cases "ps_call c (s, shared)")
  from Cons.prems have "unat (next_task_id s) + 1 < 2 ^ 64" by simp
  from ps_call_ids_fresh [OF Cons.prems(1) this, of c shared] c
  have f: "ids_fresh s1" and b: "unat (next_task_id s1) \<le> unat (next_task_id s) + 1" by simp_all
  with Cons.prems have "unat (next_task_id s1) + length cs < 2 ^ 64" by simp
  from Cons.IH [OF f this, of sh1] b c show ?case by simp
qed

lemma ps_call_absent:
  assumes "\<forall>t \<in> set (ps_tasks s). task_id t \<noteq> tid" and "unat tid < unat (next_task_id s)"
    and "unat (next_task_id s) + 1 < 2 ^ 64"
  shows "(\<forall>t \<in> set (ps_tasks (fst (ps_call c (s, shared)))). task_id t \<noteq> tid)
    \<and> unat tid < unat (next_task_id (fst (ps_call c (s, shared))))
    \<and> unat (next_task_id (fst (ps_call c (s, shared)))) \<le> unat (next_task_id s) + 1"
proof (cases c)
  case (Schedule_at f time prio)
  with assms show ?thesis
    by (auto simp: schedule_at_def pq_push_def unat_next_id)
next
  case (Cancel x)
  with assms show ?thesis by (auto simp: cancel_eq)
next
  case (Worker now1 now2)
  with assms pq_pop_set [of task_less "ps_tasks s"] show ?thesis
    by (auto simp: worker_pass_def split: option.splits)
qed

lemma ps_run_absent:
  "\<forall>t \<in> set (ps_tasks s). task_id t \<noteq> tid \<Longrightarrow> unat tid < unat (next_task_id s) \<Longrightarrow>
   unat (next_task_id s) + length cs < 2 ^ 64 \<Longrightarrow>
   \<forall>t \<in> set (ps_tasks (fst (ps_run cs (s, shared)))). task_id t \<noteq> tid"
proof (induction cs arbitrary: s shared)
  case Nil
  then show ?case by simp
next
  case (Cons c cs)
  obtain s1 sh1 where c: "ps_call c (s, shared) = (s1, sh1)" by (cases "ps_call c (s, shared)")
  from Cons.prems have "unat (next_task_id s) + 1 < 2 ^ 64" by simp
  from ps_call_absent [OF Cons.prems(1,2) this, of c shared] c
  have a: "\<forall>t \<in> set (ps_tasks s1). task_id t \<noteq> tid" and l: "unat tid < unat (next_task_id s1)"
    and b: "unat (next_task_id s1) \<le> unat (next_task_id s) + 1" by simp_all
  with Cons.prems have "unat (next_task_id s1) + length cs < 2 ^ 64" by simp
  from Cons.IH [OF a l this, of sh1] c show ?case by simp
qed

lemma length_filter_other_ids:
  "distinct (map f xs) \<Longrightarrow> a \<in> f ` set xs \<Longrightarrow>
   length (filter (\<lambda>t. f t \<noteq> a) xs) = length xs - 1"
proof (induction xs)
  case Nil
  then show ?case by simp
next
  case (Cons x xs)
  show ?case
  proof (cases "f x = a")
    case True
    with Cons.prems have "f x \<notin> f ` set xs" by simp
    with True have "\<forall>t \<in> set xs. f t \<noteq> a" by (metis imageI)
    then have "filter (\<lambda>t. f t \<noteq> a) xs = xs" by (simp add: filter_id_conv)
    with True show ?thesis by simp
  next
    case False
    with Cons.prems have "a \<in> f ` set xs" and "distinct (map f xs)" by auto
    with Cons.IH have "length (filter (\<lambda>t. f t \<noteq> a) xs) = length xs - 1" by simp
    moreover from \<open>a \<in> f ` set xs\<close> have "xs \<noteq> []" by auto
    ultimately show ?thesis using False by (cases xs) simp_all
  qed
qed

lemma ids_fresh_new: "ids_fresh (PriorityScheduler_new n)"
  by (simp add: ids_fresh_def PriorityScheduler_new_def)

text \<open>
  C6. After any run of fewer than \<open>2^64\<close> calls on a fresh scheduler,
  \<open>cancel tid\<close> returns whether a pending task has the id \<open>tid\<close>; it removes
  exactly the tasks with that id, which is one task when it returns true; the
  tasks that remain are popped in the same order of priority and schedule time
  as before. After a successful \<open>cancel tid\<close> and any further calls, another
  \<open>cancel tid\<close> returns false and leaves the pending tasks and their order as
  they are.
\<close>

theorem cancel_removes_pending_task:
  assumes bound: "length cs1 + length cs2 < 2 ^ 64"
    and run1: "ps_run cs1 (PriorityScheduler_new n, shared0) = (s, shared)"
    and c1: "cancel tid s = (found, s')"
    and run2: "ps_run cs2 (s', shared) = (s2, shared2)"
    and c2: "cancel tid s2 = (found2, s2')"
  shows "(found \<longleftrightarrow> (\<exists>t \<in> set (ps_tasks s). task_id t = tid))
    \<and> mset (ps_tasks s') = filter_mset (\<lambda>t. task_id t \<noteq> tid) (mset (ps_tasks s))
    \<and> pending_tasks s' = pending_tasks s - (if found then 1 else 0)
    \<and> map task_key (drain task_less (ps_tasks s'))
        = map task_key (filter (\<lambda>t. task_id t \<noteq> tid) (drain task_less (ps_tasks s)))
    \<and> (found \<longrightarrow> \<not> found2
          \<and> mset (ps_tasks s2') = mset (ps_tasks s2)
          \<and> pending_tasks s2' = pending_tasks s2
          \<and> map task_key (drain task_less (ps_tasks s2'))
              = map task_key (drain task_less (ps_tasks s2)))"
proof -
  from c1 have found: "found \<longleftrightarrow> (\<exists>t \<in> set (ps_tasks s). task_id t = tid)"
    and s': "s' = s\<lparr>ps_tasks := filter (\<lambda>t. task_id t \<noteq> tid) (drain task_less (ps_tasks s))\<rparr>"
    by (simp_all add: cancel_eq)
  from c2 have found2: "found2 \<longleftrightarrow> (\<exists>t \<in> set (ps_tasks s2). task_id t = tid)"
    and s2': "s2' = s2\<lparr>ps_tasks := filter (\<lambda>t. task_id t \<noteq> tid) (drain task_less (ps_tasks s2))\<rparr>"
    by (simp_all add: cancel_eq)
  from bound have b1: "unat (next_task_id (PriorityScheduler_new n :: 's PriorityScheduler))
      + length cs1 < 2 ^ 64"
    by (simp add: PriorityScheduler_new_def)
  from ps_run_ids_fresh [OF ids_fresh_new b1, of shared0] run1
  have fresh: "ids_fresh s" and nxt: "unat (next_task_id s) \<le> length cs1"
    by (simp_all add: PriorityScheduler_new_def)
  have m: "mset (ps_tasks s') = filter_mset (\<lambda>t. task_id t \<noteq> tid) (mset (ps_tasks s))"
    by (simp add: s')
  have len: "pending_tasks s' = pending_tasks s - (if found then 1 else 0)"
  proof (cases found)
    case True
    with found have "tid \<in> task_id ` set (drain task_less (ps_tasks s))" by auto
    moreover from fresh have "distinct (map task_id (drain task_less (ps_tasks s)))"
      by (metis ids_fresh_def mset_drain mset_eq_imp_distinct_iff mset_map)
    ultimately show ?thesis
      using True by (simp add: pending_tasks_def s' length_filter_other_ids)
  next
    case False
    with found have "\<forall>t \<in> set (drain task_less (ps_tasks s)). task_id t \<noteq> tid" by auto
    then have "filter (\<lambda>t. task_id t \<noteq> tid) (drain task_less (ps_tasks s))
        = drain task_less (ps_tasks s)"
      by (simp add: filter_id_conv)
    with False show ?thesis by (simp add: pending_tasks_def s')
  qed
  have ord: "map task_key (drain task_less (ps_tasks s'))
        = map task_key (filter (\<lambda>t. task_id t \<noteq> tid) (drain task_less (ps_tasks s)))"
    by (simp add: s' drain_cancel)
  have again: "\<not> found2 \<and> mset (ps_tasks s2') = mset (ps_tasks s2)
      \<and> pending_tasks s2' = pending_tasks s2
      \<and> map task_key (drain task_less (ps_tasks s2'))
          = map task_key (drain task_less (ps_tasks s2))" if found
  proof -
    from that found obtain t where "t \<in> set (ps_tasks s)" and "task_id t = tid" by blast
    with fresh have "unat tid < unat (next_task_id s)"
      by (auto simp: ids_fresh_def list_all_iff)
    then have lt: "unat tid < unat (next_task_id s')" by (simp add: s')
    have ab: "\<forall>t \<in> set (ps_tasks s'). task_id t \<noteq> tid" by (simp add: s')
    from nxt bound have "unat (next_task_id s') + length cs2 < 2 ^ 64" by (simp add: s')
    from ps_run_absent [OF ab lt this, of shared] run2
    have absent: "\<forall>t \<in> set (ps_tasks s2). task_id t \<noteq> tid" by simp
    then have "filter (\<lambda>t. task_id t \<noteq> tid) (drain task_less (ps_tasks s2))
        = drain task_less (ps_tasks s2)"
      by (simp add: filter_id_conv)
    then have "ps_tasks s2' = drain task_less (ps_tasks s2)" by (simp add: s2')
    moreover have "drain task_less (drain task_less (ps_tasks s2)) = drain task_less (ps_tasks s2)"
      by (intro drain_sorted_id sorted_drain)
    ultimately show ?thesis using absent found2 by (simp add: pending_tasks_def)
  qed
  from found m len ord again show ?thesis by blast
qed

theorem cancel_removes_pending_task_witness:
  "ps_run [Schedule_at (append_priority 1) 10 1, Schedule_at (append_priority 5) 11 5,
           Schedule_at (append_priority 3) 12 3] (PriorityScheduler_new 1, [])
     = (\<lparr>ps_tasks = [\<lparr>func = append_priority 1, priority = 1, schedule_time = 10, task_id = 0\<rparr>,
                     \<lparr>func = append_priority 5, priority = 5, schedule_time = 11, task_id = 1\<rparr>,
                     \<lparr>func = append_priority 3, priority = 3, schedule_time = 12, task_id = 2\<rparr>],
         ps_workers = 1, ps_stop = False, next_task_id = 3\<rparr>, [])
   \<and> cancel 1
       \<lparr>ps_tasks = [\<lparr>func = append_priority 1, priority = 1, schedule_time = 10, task_id = 0\<rparr>,
                    \<lparr>func = append_priority 5, priority = 5, schedule_time = 11, task_id = 1\<rparr>,
                    \<lparr>func = append_priority 3, priority = 3, schedule_time = 12, task_id = 2\<rparr>],
        ps_workers = 1, ps_stop = False, next_task_id = 3\<rparr>
     = (True,
        \<lparr>ps_tasks = [\<lparr>func = append_priority 3, priority = 3, schedule_time = 12, task_id = 2\<rparr>,
                     \<lparr>func = append_priority 1, priority = 1, schedule_time = 10, task_id = 0\<rparr>],
         ps_workers = 1, ps_stop = False, next_task_id = 3\<rparr>)
   \<and> ps_run [Schedule_at (append_priority 2) 13 2]
       (\<lparr>ps_tasks = [\<lparr>func = append_priority 3, priority = 3, schedule_time = 12, task_id = 2\<rparr>,
                     \<lparr>func = append_priority 1, priority = 1, schedule_time = 10, task_id = 0\<rparr>],
         ps_workers = 1, ps_stop = False, next_task_id = 3\<rparr>, [])
     = (\<lparr>ps_tasks = [\<lparr>func = append_priority 3, priority = 3, schedule_time = 12, task_id = 2\<rparr>,
                     \<lparr>func = append_priority 1, priority = 1, schedule_time = 10, task_id = 0\<rparr>,
                     \<lparr>func = append_priority 2, priority = 2, schedule_time = 13, task_id = 3\<rparr>],
         ps_workers = 1, ps_stop = False, next_task_id = 4\<rparr>, [])
   \<and> cancel 1
       \<lparr>ps_tasks = [\<lparr>func = append_priority 3, priority = 3, schedule_time = 12, task_id = 2\<rparr>,
                     \<lparr>func = append_priority 1, priority = 1, schedule_time = 10, task_id = 0\<rparr>,
                     \<lparr>func = append_priority 2, priority = 2, schedule_time = 13, task_id = 3\<rparr>],
         ps_workers = 1, ps_stop = False, next_task_id = 4\<rparr>
     = (False,
        \<lparr>ps_tasks = [\<lparr>func = append_priority 3, priority = 3, schedule_time = 12, task_id = 2\<rparr>,
                     \<lparr>func = append_priority 2, priority = 2, schedule_time = 13, task_id = 3\<rparr>,
                     \<lparr>func = append_priority 1, priority = 1, schedule_time = 10, task_id = 0\<rparr>],
         ps_workers = 1, ps_stop = False, next_task_id = 4\<rparr>)
   \<and> pending_tasks
       \<lparr>ps_tasks = [\<lparr>func = append_priority 3, priority = 3, schedule_time = 12, task_id = 2\<rparr>,
                     \<lparr>func = append_priority 1, priority = 1, schedule_time = 10, task_id = 0\<rparr>],
         ps_workers = 1, ps_stop = False, next_task_id = 3\<rparr> = 2"
proof -
  let ?t1 = "\<lparr>func = append_priority 1, priority = 1, schedule_time = 10, task_id = 0\<rparr>"
  let ?t5 = "\<lparr>func = append_priority 5, priority = 5, schedule_time = 11, task_id = 1\<rparr>"
  let ?t3 = "\<lparr>func = append_priority 3, priority = 3, schedule_time = 12, task_id = 2\<rparr>"
  let ?t2 = "\<lparr>func = append_priority 2, priority = 2, schedule_time = 13, task_id = 3\<rparr>"
  have b: "length [Schedule_at (append_priority 1) 10 1, Schedule_at (append_priority 5) 11 5,
           Schedule_at (append_priority 3) 12 3] + length [Schedule_at (append_priority 2) 13 2]
      < 2 ^ 64"
    by simp
  have r1: "ps_run [Schedule_at (append_priority 1) 10 1, Schedule_at (append_priority 5) 11 5,
           Schedule_at (append_priority 3) 12 3] (PriorityScheduler_new 1, [])
     = (\<lparr>ps_tasks = [?t1, ?t5, ?t3], ps_workers = 1, ps_stop = False, next_task_id = 3\<rparr>, [])"
    by (simp add: PriorityScheduler_new_def schedule_at_def pq_push_def)
  have c1: "cancel 1 \<lparr>ps_tasks = [?t1, ?t5, ?t3], ps_workers = 1, ps_stop = False,
        next_task_id = 3\<rparr>
     = (True, \<lparr>ps_tasks = [?t3, ?t1], ps_workers = 1, ps_stop = False, next_task_id = 3\<rparr>)"
    by (simp add: cancel_def cancel_loop.simps pq_top_def pq_pop_def pq_push_def task_less_def)
  have r2: "ps_run [Schedule_at (append_priority 2) 13 2]
       (\<lparr>ps_tasks = [?t3, ?t1], ps_workers = 1, ps_stop = False, next_task_id = 3\<rparr>, [])
     = (\<lparr>ps_tasks = [?t3, ?t1, ?t2], ps_workers = 1, ps_stop = False, next_task_id = 4\<rparr>, [])"
    by (simp add: schedule_at_def pq_push_def)
  have c2: "cancel 1 \<lparr>ps_tasks = [?t3, ?t1, ?t2], ps_workers = 1, ps_stop = False,
        next_task_id = 4\<rparr>
     = (False, \<lparr>ps_tasks = [?t3, ?t2, ?t1], ps_workers = 1, ps_stop = False, next_task_id = 4\<rparr>)"
    by (simp add: cancel_def cancel_loop.simps pq_top_def pq_pop_def pq_push_def task_less_def)
  from cancel_removes_pending_task [OF b r1 c1 r2 c2]
  have "pending_tasks \<lparr>ps_tasks = [?t3, ?t1], ps_workers = 1, ps_stop = False,
        next_task_id = 3\<rparr>
      = pending_tasks \<lparr>ps_tasks = [?t1, ?t5, ?t3], ps_workers = 1, ps_stop = False,
        next_task_id = 3\<rparr> - (if True then 1 else 0)"
    by (elim conjE)
  then have p: "pending_tasks \<lparr>ps_tasks = [?t3, ?t1], ps_workers = 1, ps_stop = False,
        next_task_id = 3\<rparr> = 2"
    by (simp add: pending_tasks_def)
  from r1 c1 r2 c2 p show ?thesis by (intro conjI)
qed

section \<open>Properties of the thread pool executor\<close>

text \<open>
  A new executor has no pending task and the bound on its queue that the
  constructor was given, 10000 by default.
\<close>

lemma ThreadPoolExecutor_new_empty:
  "queue_size (ThreadPoolExecutor_new n m) = 0
   \<and> max_queue_size (ThreadPoolExecutor_new n m) = m
   \<and> unat default_max_queue_size = 10000"
  by (simp add: queue_size_def ThreadPoolExecutor_new_def default_max_queue_size_def)

section \<open>Properties of the lock-free queue\<close>

lemma chain_cong:
  "(\<And>a. a \<in> set (h # xs) \<Longrightarrow> st' a = st a) \<Longrightarrow> chain st' h xs = chain st h xs"
  by (induction xs arbitrary: h) simp_all

lemma chain_suffix: "chain st h (as @ b # bs) \<Longrightarrow> chain st b bs"
  by (induction as arbitrary: h) auto

lemma chain_from_member:
  assumes "chain st h xs" and "t \<in> set (h # xs)"
  shows "\<exists>pre ys. h # xs = pre @ t # ys \<and> chain st t ys"
proof -
  from assms(2) obtain pre ys where sp: "h # xs = pre @ t # ys"
    by (meson split_list)
  show ?thesis
  proof (cases pre)
    case Nil
    with sp assms(1) show ?thesis by auto
  next
    case (Cons p ps)
    with sp have "xs = ps @ t # ys" by simp
    with assms(1) have "chain st t ys" using chain_suffix by blast
    with sp show ?thesis by blast
  qed
qed

lemma chain_live: "chain st h xs \<Longrightarrow> a \<in> set (h # xs) \<Longrightarrow> \<exists>n. st a = Some n"
  by (induction xs arbitrary: h) (auto split: option.splits)

lemma chain_snoc:
  assumes "chain st h xs" and "node \<notin> set (h # xs)" and "distinct (h # xs)"
    and "st node = Some m" and "node_next m = None" and "st (last (h # xs)) = Some n"
  shows "chain (st(last (h # xs) \<mapsto> n\<lparr>node_next := Some node\<rparr>)) h (xs @ [node])"
  using assms
proof (induction xs arbitrary: h)
  case Nil
  then show ?case by auto
next
  case (Cons b bs)
  have l: "last (h # b # bs) = last (b # bs)" by simp
  from Cons.prems have "chain (st(last (b # bs) \<mapsto> n\<lparr>node_next := Some node\<rparr>)) b (bs @ [node])"
    by (intro Cons.IH) auto
  moreover from Cons.prems have "h \<noteq> last (b # bs)"
    by (metis distinct.simps(2) last_in_set list.distinct(1))
  moreover from Cons.prems obtain x where "st h = Some x" and "node_next x = Some b"
    by (auto split: option.splits)
  ultimately show ?case
    unfolding l by (simp del: last.simps fun_upd_apply add: fun_upd_other)
qed

lemma enqueue_loop_links:
  assumes "chain (objects (q_pool q)) t ys" and "q_tail q = Some t"
    and "objects (q_pool q) (last (t # ys)) = Some n"
  shows "enqueue_loop node (Some t) q
    = Some (Some (last (t # ys)),
            q\<lparr>q_tail := Some (last (t # ys)),
              q_pool := (q_pool q)\<lparr>objects := (objects (q_pool q))
                (last (t # ys) \<mapsto> n\<lparr>node_next := Some node\<rparr>)\<rparr>\<rparr>)"
  using assms
proof (induction ys arbitrary: t q)
  case Nil
  then show ?case
    by (subst enqueue_loop.simps)
      (auto simp: load_next_def cas_next_def store_next_def split: option.splits)
next
  case (Cons b bs)
  let ?q = "q\<lparr>q_tail := Some b\<rparr>"
  have l: "last (t # b # bs) = last (b # bs)" by simp
  from Cons.prems have "enqueue_loop node (Some b) ?q
    = Some (Some (last (b # bs)),
            ?q\<lparr>q_tail := Some (last (b # bs)),
              q_pool := (q_pool ?q)\<lparr>objects := (objects (q_pool ?q))
                (last (b # bs) \<mapsto> n\<lparr>node_next := Some node\<rparr>)\<rparr>\<rparr>)"
    by (intro Cons.IH) (simp_all del: last.simps add: l)
  moreover from Cons.prems have "enqueue_loop node (Some t) q = enqueue_loop node (Some b) ?q"
    by (subst enqueue_loop.simps)
      (auto simp: load_next_def cas_ptr_def split: option.splits)
  ultimately show ?case
    unfolding l by (simp del: last.simps fun_upd_apply)
qed


lemma allocate_block_fresh:
  assumes ok: "pool_ok p used" and al: "allocate_block p = Some (a, p')"
  shows "a \<notin> set used \<and> pool_ok p' (a # used) \<and> objects p' = objects p"
proof (cases "free_list p")
  case Nil
  let ?fl = "free_list (allocate_chunk p)"
  have fl: "?fl = map (\<lambda>i. chunks p * blocks_per_chunk + i) [0..<blocks_per_chunk]"
    using Nil by (simp add: allocate_chunk_def)
  have d: "distinct ?fl"
    unfolding fl by (simp add: distinct_map inj_on_def)
  have r: "\<forall>x \<in> set ?fl. chunks p * blocks_per_chunk \<le> x
      \<and> x < chunks p * blocks_per_chunk + blocks_per_chunk"
    unfolding fl by auto
  obtain a' rest where c: "?fl = a' # rest"
    using allocate_chunk_free [of p] by (cases ?fl) auto
  with Nil al have a: "a = a'" and p': "p' = (allocate_chunk p)\<lparr>free_list := rest\<rparr>"
    by (simp_all add: allocate_block_def)
  from ok have used: "\<forall>u \<in> set used. u < chunks p * blocks_per_chunk"
    by (simp add: pool_ok_def list_all_iff)
  have ch: "chunks p' = chunks p + 1" and ob: "objects p' = objects p"
    and fr: "free_list p' = rest"
    by (simp_all add: p' allocate_chunk_def)
  have b: "(chunks p + 1) * blocks_per_chunk = chunks p * blocks_per_chunk + blocks_per_chunk"
    by simp
  from d r c have d': "distinct rest" and a1: "a' \<notin> set rest"
    and r': "\<forall>x \<in> set (a' # rest). chunks p * blocks_per_chunk \<le> x
      \<and> x < chunks p * blocks_per_chunk + blocks_per_chunk"
    by simp_all
  from used r' have "a \<notin> set used" unfolding a by fastforce
  moreover have "pool_ok p' (a # used)"
    unfolding pool_ok_def list_all_iff ch b fr a
    using used d' a1 r' by fastforce
  ultimately show ?thesis using ob by simp
next
  case (Cons b rest)
  with al have a: "a = b" and p': "p' = p\<lparr>free_list := rest\<rparr>"
    by (simp_all add: allocate_block_def)
  from ok Cons show ?thesis
    by (auto simp: pool_ok_def list_all_iff a p')
qed

lemma allocate_fresh:
  assumes ok: "pool_ok p used" and al: "allocate v p = Some (a, p')"
  shows "a \<notin> set used \<and> pool_ok p' (a # used) \<and> objects p' = (objects p)(a \<mapsto> v)"
proof -
  from al obtain p1 where b: "allocate_block p = Some (a, p1)"
    and p': "p' = p1\<lparr>objects := (objects p1)(a \<mapsto> v)\<rparr>"
    by (auto simp: allocate_def split: option.splits)
  from allocate_block_fresh [OF ok b] show ?thesis
    by (simp add: p' pool_ok_def)
qed

lemma pool_ok_objects [simp]: "pool_ok (p\<lparr>objects := st\<rparr>) used = pool_ok p used"
  by (simp add: pool_ok_def)

lemma deallocate_ok:
  "pool_ok p (h # xs) \<Longrightarrow> h \<notin> set xs \<Longrightarrow> pool_ok (deallocate (Some h) p) xs"
  by (auto simp: pool_ok_def deallocate_def list_all_iff)

lemma MPMCQueue_new_inv:
  "\<exists>(q :: ('a::zero) MPMCQueue) h.
     MPMCQueue_new c = Some q \<and> queue_inv q h [] \<and> q_capacity q = c \<and> q_size q = 0"
proof -
  have ok: "pool_ok (MemoryPool_new :: 'a Node MemoryPool) []"
    by (simp add: pool_ok_def MemoryPool_new_def)
  obtain h p where al: "allocate \<lparr>node_next = None, node_data = 0 :: 'a\<rparr> MemoryPool_new = Some (h, p)"
    using allocate_Some [of "\<lparr>node_next = None, node_data = 0 :: 'a\<rparr>" MemoryPool_new] by blast
  from allocate_fresh [OF ok al] al show ?thesis
    by (simp add: MPMCQueue_new_def queue_inv_def)
qed


lemma pool_ok_set: "set used = set used' \<Longrightarrow> pool_ok p used = pool_ok p used'"
  by (auto simp: pool_ok_def list_all_iff)

lemma unat_size_succ:
  "(x :: size_t) < y \<Longrightarrow> unat (x + 1) = unat x + 1"
proof -
  assume "x < y"
  then have "unat x < unat y" by (simp add: word_less_nat_alt)
  moreover have "unat y < 2 ^ 64" using unsigned_less [of y, where 'a = nat] by simp
  ultimately show ?thesis by (intro unat_next_id) simp
qed

lemma try_enqueue_ok:
  fixes q :: "('a::zero) MPMCQueue"
  assumes inv: "queue_inv q h xs" and room: "q_size q < q_capacity q"
  shows "\<exists>node q'. try_enqueue v q = Some (True, q') \<and> queue_inv q' h (xs @ [node])
    \<and> node_values (q_pool q') (xs @ [node]) = node_values (q_pool q) xs @ [Some v]
    \<and> q_size q' = q_size q + 1 \<and> q_capacity q' = q_capacity q"
proof -
  let ?st = "objects (q_pool q)"
  from inv have head: "q_head q = Some h" and ch: "chain ?st h xs"
    and dist: "distinct (h # xs)" and sz: "unat (q_size q) = length xs"
    and ok: "pool_ok (q_pool q) (h # xs)"
    by (simp_all add: queue_inv_def)
  from inv obtain t where tail: "q_tail q = Some t" and tin: "t \<in> set (h # xs)"
    by (auto simp: queue_inv_def split: option.splits)
  obtain node pool1 where
    al: "allocate \<lparr>node_next = None, node_data = 0 :: 'a\<rparr> (q_pool q) = Some (node, pool1)"
    using allocate_Some [of "\<lparr>node_next = None, node_data = 0 :: 'a\<rparr>" "q_pool q"] by blast
  from allocate_fresh [OF ok al]
  have fresh: "node \<notin> set (h # xs)" and ok1: "pool_ok pool1 (node # h # xs)"
    and st1: "objects pool1 = ?st(node \<mapsto> \<lparr>node_next = None, node_data = 0\<rparr>)"
    by simp_all
  let ?pool3 = "pool1\<lparr>objects := ?st(node \<mapsto> \<lparr>node_next = None, node_data = v\<rparr>)\<rparr>"
  let ?st3 = "?st(node \<mapsto> \<lparr>node_next = None, node_data = v\<rparr>)"
  have sd: "store_data (Some node) v pool1 = Some ?pool3"
    by (simp add: store_data_def st1)
  have sn: "store_next (Some node) None ?pool3 = Some ?pool3"
    by (simp add: store_next_def)
  from chain_from_member [OF ch tin] obtain pre ys where
    sp: "h # xs = pre @ t # ys" and cht: "chain ?st t ys"
    by blast
  let ?l = "last (h # xs)"
  from sp have lt: "last (t # ys) = ?l"
    by (metis last_appendR list.distinct(1))
  have lin: "?l \<in> set (h # xs)" by (rule last_in_set) simp
  from chain_live [OF ch lin] obtain n where n: "?st ?l = Some n" by blast
  from fresh lin have ln: "?l \<noteq> node" by auto
  from sp fresh have "node \<notin> set (t # ys)"
    by (metis Un_iff set_append)
  then have cht3: "chain ?st3 t ys"
    using cht by (subst chain_cong [of t ys _ ?st]) auto
  from fresh have ch3: "chain ?st3 h xs"
    using ch by (subst chain_cong [of h xs _ ?st]) auto
  let ?q3 = "q\<lparr>q_pool := ?pool3\<rparr>"
  let ?st4 = "?st3(?l \<mapsto> n\<lparr>node_next := Some node\<rparr>)"
  have n3: "objects (q_pool ?q3) (last (t # ys)) = Some n"
    using n ln by (simp add: lt del: last.simps)
  have "chain (objects (q_pool ?q3)) t ys" using cht3 by simp
  from enqueue_loop_links [OF this _ n3, of node] tail
  have loop: "enqueue_loop node (Some t) ?q3
    = Some (Some ?l, ?q3\<lparr>q_tail := Some ?l, q_pool := ?pool3\<lparr>objects := ?st4\<rparr>\<rparr>)"
    by (simp add: lt del: last.simps fun_upd_apply)
  let ?q' = "q\<lparr>q_pool := ?pool3\<lparr>objects := ?st4\<rparr>, q_tail := Some node,
      q_size := q_size q + 1\<rparr>"
  from room have nf: "\<not> q_capacity q \<le> q_size q" by simp
  have res: "try_enqueue v q = Some (True, ?q')"
    by (simp add: try_enqueue_def nf al sd sn tail loop cas_ptr_def
        del: last.simps fun_upd_apply)
  have n3': "?st3 ?l = Some n" using n ln by simp
  have nd: "?st3 node = Some \<lparr>node_next = None, node_data = v\<rparr>" by simp
  have nn: "node_next \<lparr>node_next = None, node_data = v\<rparr> = None" by simp
  have ch4: "chain ?st4 h (xs @ [node])"
    by (rule chain_snoc [OF ch3 fresh dist nd nn n3'])
  have ok4: "pool_ok (?pool3\<lparr>objects := ?st4\<rparr>) (h # xs @ [node])"
    using ok1 pool_ok_set [of "h # xs @ [node]" "node # h # xs" pool1] by auto
  have sz': "unat (q_size q + 1) = length (xs @ [node])"
    using unat_size_succ [OF room] sz by simp
  have inv': "queue_inv ?q' h (xs @ [node])"
    unfolding queue_inv_def
    using head ch4 dist fresh ok4 sz' by (simp del: last.simps fun_upd_apply)
  have vals: "node_values (q_pool ?q') (xs @ [node]) = node_values (q_pool q) xs @ [Some v]"
  proof -
    have "map_option node_data (?st4 a) = map_option node_data (?st a)" if "a \<in> set xs" for a
      using that fresh n by (cases "a = ?l") (auto simp del: last.simps)
    moreover have "map_option node_data (?st4 node) = Some v"
      using ln by simp
    ultimately show ?thesis
      by (simp add: node_values_def del: last.simps fun_upd_apply)
  qed
  from res inv' vals show ?thesis by (intro exI [of _ node] exI [of _ ?q']) simp
qed


lemma dequeue_loop_take:
  assumes "q_head q = Some h" and "tail \<noteq> Some h"
    and "load_next (Some h) (q_pool q) = Some (Some b)"
    and "load_data (Some b) (q_pool q) = Some vb"
  shows "dequeue_loop d (Some h) tail q = Some (True, vb, Some h, q\<lparr>q_head := Some b\<rparr>)"
  using assms
  by (subst dequeue_loop.simps) (auto simp: cas_ptr_def)

lemma dequeue_loop_help_tail:
  assumes "q_head q = Some h" and "q_tail q = Some h"
    and "load_next (Some h) (q_pool q) = Some (Some b)"
  shows "dequeue_loop d (Some h) (Some h) q
    = dequeue_loop d (Some h) (Some h) (q\<lparr>q_tail := Some b\<rparr>)"
  using assms
  by (subst dequeue_loop.simps) (simp add: cas_ptr_def)

lemma dequeue_loop_reload_tail:
  assumes "q_head q = Some h" and "q_tail q = Some b" and "b \<noteq> h"
    and "load_next (Some h) (q_pool q) = Some (Some b)"
  shows "dequeue_loop d (Some h) (Some h) q = dequeue_loop d (Some h) (Some b) q"
proof -
  have eq: "q\<lparr>q_tail := Some b\<rparr> = q" using assms(2) by simp
  show ?thesis
    by (subst dequeue_loop.simps) (simp add: cas_ptr_def assms eq)
qed

lemma try_dequeue_empty:
  "queue_inv q h [] \<Longrightarrow> try_dequeue d q = Some (False, d, q)"
  by (simp add: queue_inv_def try_dequeue_def unat_0_iff)

lemma try_dequeue_ok:
  assumes inv: "queue_inv q h (b # bs)"
  shows "\<exists>vb q'. node_values (q_pool q) [b] = [Some vb]
    \<and> try_dequeue d q = Some (True, vb, q') \<and> queue_inv q' b bs
    \<and> node_values (q_pool q') bs = node_values (q_pool q) bs
    \<and> q_size q' = q_size q - 1 \<and> q_capacity q' = q_capacity q"
proof -
  let ?st = "objects (q_pool q)"
  from inv have head: "q_head q = Some h" and ch: "chain ?st h (b # bs)"
    and dist: "distinct (h # b # bs)" and sz: "unat (q_size q) = length (b # bs)"
    and ok: "pool_ok (q_pool q) (h # b # bs)"
    by (simp_all add: queue_inv_def)
  from inv obtain t where tail: "q_tail q = Some t" and tin: "t \<in> set (h # b # bs)"
    by (auto simp: queue_inv_def split: option.splits)
  from ch obtain nh where nh: "?st h = Some nh" "node_next nh = Some b" and chb: "chain ?st b bs"
    by (auto split: option.splits)
  from chain_live [OF chb, of b] obtain nb where nb: "?st b = Some nb" by auto
  let ?vb = "node_data nb"
  from dist have bh: "b \<noteq> h" by auto
  have ln: "load_next (Some h) (q_pool q) = Some (Some b)"
    by (simp add: load_next_def nh)
  have ld: "load_data (Some b) (q_pool q) = Some ?vb"
    by (simp add: load_data_def nb)
  let ?t' = "if t = h then b else t"
  let ?q1 = "q\<lparr>q_tail := Some ?t', q_head := Some b\<rparr>"
  have loop: "dequeue_loop d (q_head q) (q_tail q) q = Some (True, ?vb, Some h, ?q1)"
  proof (cases "t = h")
    case True
    let ?q2 = "q\<lparr>q_tail := Some b\<rparr>"
    have "dequeue_loop d (Some h) (Some h) q = dequeue_loop d (Some h) (Some h) ?q2"
      using head tail True ln by (intro dequeue_loop_help_tail) simp_all
    also have "\<dots> = dequeue_loop d (Some h) (Some b) ?q2"
      using head bh ln by (intro dequeue_loop_reload_tail) simp_all
    also have "\<dots> = Some (True, ?vb, Some h, ?q2\<lparr>q_head := Some b\<rparr>)"
      using head bh ln ld by (intro dequeue_loop_take) simp_all
    finally show ?thesis using True head tail by simp
  next
    case False
    then have "dequeue_loop d (Some h) (Some t) q = Some (True, ?vb, Some h, q\<lparr>q_head := Some b\<rparr>)"
      using head ln ld by (intro dequeue_loop_take) simp_all
    moreover have "q\<lparr>q_tail := Some t\<rparr> = q" using tail by simp
    ultimately show ?thesis using False head tail by simp
  qed
  from sz have nz: "q_size q \<noteq> 0" by (auto simp: unat_0_iff [symmetric] simp del: unat_0_iff)
  let ?q' = "?q1\<lparr>q_pool := deallocate (Some h) (q_pool q), q_size := q_size q - 1\<rparr>"
  have res: "try_dequeue d q = Some (True, ?vb, ?q')"
    by (simp add: try_dequeue_def nz loop)
  let ?st' = "?st(h := None)"
  have st': "objects (q_pool ?q') = ?st'" by (simp add: deallocate_def)
  from dist have hn: "h \<notin> set (b # bs)" by auto
  then have chb': "chain ?st' b bs"
    using chb by (subst chain_cong [of b bs _ ?st]) auto
  from tin dist have t': "?t' \<in> set (b # bs)" by auto
  from dist ok have ok': "pool_ok (q_pool ?q') (b # bs)"
    using deallocate_ok [of "q_pool q" h "b # bs"] by simp
  from nz sz have sz': "unat (q_size q - 1) = length bs"
    by (simp add: unat_minus_one)
  have inv': "queue_inv ?q' b bs"
    unfolding queue_inv_def st'
    using chb' dist t' sz' ok' by (simp del: fun_upd_apply)
  have vals: "node_values (q_pool ?q') bs = node_values (q_pool q) bs"
    unfolding node_values_def st' using hn by auto
  have v0: "node_values (q_pool q) [b] = [Some ?vb]"
    by (simp add: node_values_def nb)
  from v0 res inv' vals show ?thesis
    by (intro exI [of _ ?vb] exI [of _ ?q']) simp
qed


lemma q_run_refines:
  fixes q :: "('a::zero) MPMCQueue"
  assumes "queue_inv q h xs" and "node_values (q_pool q) xs = map Some vs"
  shows "\<exists>rs q' h' xs'. q_run ops q = Some (rs, q') \<and> queue_inv q' h' xs'
    \<and> node_values (q_pool q') xs' = map Some (snd (fifo_run (unat (q_capacity q)) ops vs))
    \<and> rs = fst (fifo_run (unat (q_capacity q)) ops vs)
    \<and> q_capacity q' = q_capacity q"
  using assms
proof (induction ops arbitrary: q h xs vs)
  case Nil
  then show ?case by auto
next
  case (Cons op ops)
  from Cons.prems have len: "length vs = length xs"
    by (metis length_map node_values_def)
  from Cons.prems have sz: "unat (q_size q) = length xs"
    by (simp add: queue_inv_def)
  show ?case
  proof (cases op)
    case (Enqueue v)
    show ?thesis
    proof (cases "q_capacity q \<le> q_size q")
      case True
      then have full: "unat (q_capacity q) \<le> length vs"
        using sz len by (simp add: word_le_nat_alt)
      from True have e: "try_enqueue v q = Some (False, q)"
        by (simp add: try_enqueue_def)
      from Cons.IH [OF Cons.prems] obtain rs q' h' xs' where
        "q_run ops q = Some (rs, q')" "queue_inv q' h' xs'"
        "node_values (q_pool q') xs' = map Some (snd (fifo_run (unat (q_capacity q)) ops vs))"
        "rs = fst (fifo_run (unat (q_capacity q)) ops vs)" "q_capacity q' = q_capacity q"
        by blast
      with Enqueue e full show ?thesis
        by (auto simp: split_beta)
    next
      case False
      then have room: "q_size q < q_capacity q" by simp
      then have nfull: "\<not> unat (q_capacity q) \<le> length vs"
        using sz len by (simp add: word_less_nat_alt)
      from try_enqueue_ok [OF Cons.prems(1) room, of v] obtain node q1 where
        e: "try_enqueue v q = Some (True, q1)" and i1: "queue_inv q1 h (xs @ [node])"
        and v1: "node_values (q_pool q1) (xs @ [node]) = node_values (q_pool q) xs @ [Some v]"
        and c1: "q_capacity q1 = q_capacity q"
        by blast
      from v1 Cons.prems(2)
      have "node_values (q_pool q1) (xs @ [node]) = map Some (vs @ [v])" by simp
      from Cons.IH [OF i1 this] obtain rs q' h' xs' where
        "q_run ops q1 = Some (rs, q')" "queue_inv q' h' xs'"
        "node_values (q_pool q') xs' = map Some (snd (fifo_run (unat (q_capacity q1)) ops (vs @ [v])))"
        "rs = fst (fifo_run (unat (q_capacity q1)) ops (vs @ [v]))" "q_capacity q' = q_capacity q1"
        by blast
      with Enqueue e nfull c1 show ?thesis
        by (auto simp: split_beta)
    qed
  next
    case Dequeue
    show ?thesis
    proof (cases xs)
      case Nil
      with len have vs: "vs = []" by simp
      from Cons.prems(1) Nil have d: "try_dequeue 0 q = Some (False, 0, q)"
        by (simp add: try_dequeue_empty)
      from Cons.IH [OF Cons.prems] obtain rs q' h' xs' where
        "q_run ops q = Some (rs, q')" "queue_inv q' h' xs'"
        "node_values (q_pool q') xs' = map Some (snd (fifo_run (unat (q_capacity q)) ops vs))"
        "rs = fst (fifo_run (unat (q_capacity q)) ops vs)" "q_capacity q' = q_capacity q"
        by blast
      with Dequeue d vs show ?thesis
        by (auto simp: split_beta)
    next
      case (Cons b bs)
      with Cons.prems(2) obtain vb rest where vs: "vs = vb # rest"
        and vb: "node_values (q_pool q) [b] = [Some vb]"
        and rest: "node_values (q_pool q) bs = map Some rest"
        by (cases vs) (auto simp: node_values_def)
      from Cons.prems(1) Cons have "queue_inv q h (b # bs)" by simp
      from try_dequeue_ok [OF this, of 0] vb obtain q1 where
        d: "try_dequeue 0 q = Some (True, vb, q1)" and i1: "queue_inv q1 b bs"
        and v1: "node_values (q_pool q1) bs = node_values (q_pool q) bs"
        and c1: "q_capacity q1 = q_capacity q"
        by auto
      from v1 rest have "node_values (q_pool q1) bs = map Some rest" by simp
      from Cons.IH [OF i1 this] obtain rs q' h' xs' where
        "q_run ops q1 = Some (rs, q')" "queue_inv q' h' xs'"
        "node_values (q_pool q') xs' = map Some (snd (fifo_run (unat (q_capacity q1)) ops rest))"
        "rs = fst (fifo_run (unat (q_capacity q1)) ops rest)" "q_capacity q' = q_capacity q1"
        by blast
      with Dequeue d vs c1 show ?thesis
        by (auto simp: split_beta)
    qed
  qed
qed

lemma run_from_new:
  fixes q0 :: "('a::zero) MPMCQueue"
  assumes new: "MPMCQueue_new c = Some q0" and run: "q_run ops q0 = Some (rs, q)"
  shows "\<exists>h xs. queue_inv q h xs
    \<and> node_values (q_pool q) xs = map Some (snd (fifo_run (unat c) ops []))
    \<and> rs = fst (fifo_run (unat c) ops []) \<and> q_capacity q = c"
proof -
  from MPMCQueue_new_inv [of c, where 'a = 'a] new obtain h where
    i0: "queue_inv q0 h []" and c0: "q_capacity q0 = c"
    by auto
  have "node_values (q_pool q0) [] = map Some []" by (simp add: node_values_def)
  from q_run_refines [OF i0 this, of ops] run c0 show ?thesis by auto
qed

lemma inv_length:
  assumes "queue_inv q h xs" and "node_values (q_pool q) xs = map Some vs"
  shows "length vs = unat (q_size q)"
proof -
  from assms(2) have "length vs = length xs" by (metis length_map node_values_def)
  with assms(1) show ?thesis by (simp add: queue_inv_def)
qed

lemma bpc15: "blocks_per_chunk = 15"
  by (simp add: blocks_per_chunk_def chunk_size_def sizeof_Block_def)

lemma upt15: "[0..<15] = [0, 1, 2, 3, 4, 5, 6, 7, 8, 9, 10, 11, 12, 13, 14]"
  by code_simp

text \<open>
  C3. Whenever \<open>size_\<close> has reached \<open>capacity_\<close>, \<open>try_enqueue\<close> returns
  false and leaves the queue exactly as it was. In a single-threaded run from
  a fresh queue of capacity \<open>c\<close>, when \<open>size_\<close> is \<open>c - 1\<close> an enqueue
  succeeds and brings \<open>size_\<close> to \<open>c\<close>, and the enqueue after it fails and
  changes nothing.
\<close>

theorem try_enqueue_at_capacity:
  fixes q :: "('a::zero) MPMCQueue"
  shows "(q_capacity q \<le> q_size q \<longrightarrow> try_enqueue v q = Some (False, q))
    \<and> (MPMCQueue_new c = Some q0 \<and> q_run ops q0 = Some (rs, q)
          \<and> unat (q_size q) + 1 = unat c \<longrightarrow>
        (\<exists>q'. try_enqueue v q = Some (True, q') \<and> q_size q' = c \<and> q_capacity q' = c
           \<and> try_enqueue w q' = Some (False, q')))"
proof (intro conjI impI)
  assume "q_capacity q \<le> q_size q"
  then show "try_enqueue v q = Some (False, q)" by (simp add: try_enqueue_def)
next
  assume a: "MPMCQueue_new c = Some q0 \<and> q_run ops q0 = Some (rs, q)
      \<and> unat (q_size q) + 1 = unat c"
  then obtain h xs where inv: "queue_inv q h xs" and cap: "q_capacity q = c"
    using run_from_new [of c q0 ops rs q] by blast
  from a cap have room: "q_size q < q_capacity q" by (simp add: word_less_nat_alt)
  from try_enqueue_ok [OF inv room, of v] obtain q' where
    e: "try_enqueue v q = Some (True, q')" and s: "q_size q' = q_size q + 1"
    and c': "q_capacity q' = q_capacity q"
    by blast
  from a have "unat (q_size q + 1) = unat c"
    using unat_size_succ [OF room] by simp
  then have s': "q_size q' = c" using s by (simp add: word_unat_eq_iff)
  with c' cap have "try_enqueue w q' = Some (False, q')" by (simp add: try_enqueue_def)
  with e s' c' cap show "\<exists>q'. try_enqueue v q = Some (True, q') \<and> q_size q' = c
      \<and> q_capacity q' = c \<and> try_enqueue w q' = Some (False, q')"
    by (intro exI [of _ q']) simp
qed

theorem try_enqueue_at_capacity_witness:
  "MPMCQueue_new 1 = Some
       \<lparr>q_capacity = 1, q_size = 0, q_head = Some 0, q_tail = Some 0,
        q_pool = \<lparr>free_list = [1, 2, 3, 4, 5, 6, 7, 8, 9, 10, 11, 12, 13, 14], chunks = 1,
          objects = [0 \<mapsto> \<lparr>node_next = None, node_data = 0 :: int\<rparr>]\<rparr>\<rparr>
   \<and> q_run [] (\<lparr>q_capacity = 1, q_size = 0, q_head = Some 0, q_tail = Some 0,
        q_pool = \<lparr>free_list = [1, 2, 3, 4, 5, 6, 7, 8, 9, 10, 11, 12, 13, 14], chunks = 1,
          objects = [0 \<mapsto> \<lparr>node_next = None, node_data = 0 :: int\<rparr>]\<rparr>\<rparr>) = Some ([],
       \<lparr>q_capacity = 1, q_size = 0, q_head = Some 0, q_tail = Some 0,
        q_pool = \<lparr>free_list = [1, 2, 3, 4, 5, 6, 7, 8, 9, 10, 11, 12, 13, 14], chunks = 1,
          objects = [0 \<mapsto> \<lparr>node_next = None, node_data = 0 :: int\<rparr>]\<rparr>\<rparr>)
   \<and> unat (q_size (\<lparr>q_capacity = 1, q_size = 0, q_head = Some 0, q_tail = Some 0,
        q_pool = \<lparr>free_list = [1, 2, 3, 4, 5, 6, 7, 8, 9, 10, 11, 12, 13, 14], chunks = 1,
          objects = [0 \<mapsto> \<lparr>node_next = None, node_data = 0 :: int\<rparr>]\<rparr>\<rparr>)) + 1 = unat (1 :: size_t)
   \<and> try_enqueue 7 (\<lparr>q_capacity = 1, q_size = 0, q_head = Some 0, q_tail = Some 0,
        q_pool = \<lparr>free_list = [1, 2, 3, 4, 5, 6, 7, 8, 9, 10, 11, 12, 13, 14], chunks = 1,
          objects = [0 \<mapsto> \<lparr>node_next = None, node_data = 0 :: int\<rparr>]\<rparr>\<rparr>) = Some (True,
       \<lparr>q_capacity = 1, q_size = 1, q_head = Some 0, q_tail = Some 1,
        q_pool = \<lparr>free_list = [2, 3, 4, 5, 6, 7, 8, 9, 10, 11, 12, 13, 14], chunks = 1,
          objects = [0 \<mapsto> \<lparr>node_next = Some 1, node_data = 0 :: int\<rparr>,
                     1 \<mapsto> \<lparr>node_next = None, node_data = 7\<rparr>]\<rparr>\<rparr>)
   \<and> q_capacity (\<lparr>q_capacity = 1, q_size = 1, q_head = Some 0, q_tail = Some 1,
        q_pool = \<lparr>free_list = [2, 3, 4, 5, 6, 7, 8, 9, 10, 11, 12, 13, 14], chunks = 1,
          objects = [0 \<mapsto> \<lparr>node_next = Some 1, node_data = 0 :: int\<rparr>,
                     1 \<mapsto> \<lparr>node_next = None, node_data = 7\<rparr>]\<rparr>\<rparr>) \<le> q_size (\<lparr>q_capacity = 1, q_size = 1, q_head = Some 0, q_tail = Some 1,
        q_pool = \<lparr>free_list = [2, 3, 4, 5, 6, 7, 8, 9, 10, 11, 12, 13, 14], chunks = 1,
          objects = [0 \<mapsto> \<lparr>node_next = Some 1, node_data = 0 :: int\<rparr>,
                     1 \<mapsto> \<lparr>node_next = None, node_data = 7\<rparr>]\<rparr>\<rparr>)
   \<and> try_enqueue 8 (\<lparr>q_capacity = 1, q_size = 1, q_head = Some 0, q_tail = Some 1,
        q_pool = \<lparr>free_list = [2, 3, 4, 5, 6, 7, 8, 9, 10, 11, 12, 13, 14], chunks = 1,
          objects = [0 \<mapsto> \<lparr>node_next = Some 1, node_data = 0 :: int\<rparr>,
                     1 \<mapsto> \<lparr>node_next = None, node_data = 7\<rparr>]\<rparr>\<rparr>) = Some (False,
       \<lparr>q_capacity = 1, q_size = 1, q_head = Some 0, q_tail = Some 1,
        q_pool = \<lparr>free_list = [2, 3, 4, 5, 6, 7, 8, 9, 10, 11, 12, 13, 14], chunks = 1,
          objects = [0 \<mapsto> \<lparr>node_next = Some 1, node_data = 0 :: int\<rparr>,
                     1 \<mapsto> \<lparr>node_next = None, node_data = 7\<rparr>]\<rparr>\<rparr>)"
proof -
  let ?Q0 = "\<lparr>q_capacity = 1, q_size = 0, q_head = Some 0, q_tail = Some 0,
        q_pool = \<lparr>free_list = [1, 2, 3, 4, 5, 6, 7, 8, 9, 10, 11, 12, 13, 14], chunks = 1,
          objects = [0 \<mapsto> \<lparr>node_next = None, node_data = 0 :: int\<rparr>]\<rparr>\<rparr>"
  let ?Q1 = "\<lparr>q_capacity = 1, q_size = 1, q_head = Some 0, q_tail = Some 1,
        q_pool = \<lparr>free_list = [2, 3, 4, 5, 6, 7, 8, 9, 10, 11, 12, 13, 14], chunks = 1,
          objects = [0 \<mapsto> \<lparr>node_next = Some 1, node_data = 0 :: int\<rparr>,
                     1 \<mapsto> \<lparr>node_next = None, node_data = 7\<rparr>]\<rparr>\<rparr>"
  have new: "MPMCQueue_new 1 = Some ?Q0"
    by (simp add: MPMCQueue_new_def allocate_def allocate_block_def allocate_chunk_def
        MemoryPool_new_def bpc15 upt15)
  have run: "q_run [] ?Q0 = Some ([], ?Q0)" by simp
  have sz: "unat (q_size ?Q0) + 1 = unat (1 :: size_t)" by simp
  have e1: "try_enqueue 7 ?Q0 = Some (True, ?Q1)"
    by (simp add: try_enqueue_def allocate_def allocate_block_def store_data_def
        store_next_def enqueue_loop.simps load_next_def cas_next_def cas_ptr_def fun_eq_iff)
  have full: "q_capacity ?Q1 \<le> q_size ?Q1" by simp
  from try_enqueue_at_capacity [of ?Q0 7 1 ?Q0 "[]" "[]" 8] new run sz e1
  have e2: "try_enqueue 8 ?Q1 = Some (False, ?Q1)"
    by simp
  from new run sz e1 full e2 show ?thesis by (intro conjI)
qed

text \<open>
  C4, amended. In a single-threaded run from a fresh queue, when \<open>size_\<close> is
  below \<open>capacity_\<close>, \<open>try_enqueue v\<close> followed by \<open>try_dequeue\<close> succeeds
  and restores \<open>size_\<close>; the value it yields is the oldest value of the
  queue: the first of the values that the run has left in the queue followed by
  \<open>v\<close>. It is \<open>v\<close> itself when the queue was empty.
\<close>

theorem enqueue_then_dequeue_fifo:
  fixes q :: "('a::zero) MPMCQueue"
  assumes new: "MPMCQueue_new c = Some q0" and run: "q_run ops q0 = Some (rs, q)"
    and room: "q_size q < q_capacity q"
  shows "\<exists>q1 q2. try_enqueue v q = Some (True, q1)
    \<and> try_dequeue d q1 = Some (True, hd (snd (fifo_run (unat c) ops []) @ [v]), q2)
    \<and> q_size q2 = q_size q
    \<and> length (snd (fifo_run (unat c) ops [])) = unat (q_size q)
    \<and> (q_size q = 0 \<longrightarrow> hd (snd (fifo_run (unat c) ops []) @ [v]) = v)"
proof -
  let ?vs = "snd (fifo_run (unat c) ops [])"
  from run_from_new [OF new run] obtain h xs where inv: "queue_inv q h xs"
    and vals: "node_values (q_pool q) xs = map Some ?vs"
    by blast
  from inv_length [OF inv vals] have len: "length ?vs = unat (q_size q)" .
  from try_enqueue_ok [OF inv room, of v] obtain node q1 where
    e: "try_enqueue v q = Some (True, q1)" and i1: "queue_inv q1 h (xs @ [node])"
    and v1: "node_values (q_pool q1) (xs @ [node]) = node_values (q_pool q) xs @ [Some v]"
    and s1: "q_size q1 = q_size q + 1"
    by blast
  obtain b bs where bs: "xs @ [node] = b # bs" by (cases "xs @ [node]") auto
  from v1 vals bs have "node_values (q_pool q1) (b # bs) = map Some (?vs @ [v])" by simp
  then have vb: "node_values (q_pool q1) [b] = [Some (hd (?vs @ [v]))]"
    by (cases "?vs @ [v]") (auto simp: node_values_def)
  from i1 bs have "queue_inv q1 h (b # bs)" by simp
  from try_dequeue_ok [OF this, of d] vb obtain q2 where
    d: "try_dequeue d q1 = Some (True, hd (?vs @ [v]), q2)" and s2: "q_size q2 = q_size q1 - 1"
    by auto
  from s1 s2 have "q_size q2 = q_size q" by simp
  moreover have "hd (?vs @ [v]) = v" if "q_size q = 0"
    using that len by simp
  ultimately show ?thesis using e d len by blast
qed

text \<open>
  The claim as stated promises \<open>v\<close> for every queue with room. On a queue of
  capacity 2 that holds the value 1, enqueuing 2 and dequeuing yields 1.
\<close>

theorem enqueue_then_dequeue_counterexample:
  "map_option fst (Option.bind (MPMCQueue_new 2) (q_run [Enqueue 1, Enqueue 2, Dequeue]))
     = Some [Enqueued True, Enqueued True, Dequeued (Some (1 :: int))]"
  by (simp add: MPMCQueue_new_def allocate_def allocate_block_def allocate_chunk_def
      MemoryPool_new_def bpc15 upt15 try_enqueue_def store_data_def
      store_next_def enqueue_loop.simps load_next_def cas_next_def cas_ptr_def
      try_dequeue_def dequeue_loop.simps load_data_def deallocate_def word_le_nat_alt)

theorem enqueue_then_dequeue_fifo_witness:
  "MPMCQueue_new 1 = Some
       \<lparr>q_capacity = 1, q_size = 0, q_head = Some 0, q_tail = Some 0,
        q_pool = \<lparr>free_list = [1, 2, 3, 4, 5, 6, 7, 8, 9, 10, 11, 12, 13, 14], chunks = 1,
          objects = [0 \<mapsto> \<lparr>node_next = None, node_data = 0 :: int\<rparr>]\<rparr>\<rparr>
   \<and> q_run [] (\<lparr>q_capacity = 1, q_size = 0, q_head = Some 0, q_tail = Some 0,
        q_pool = \<lparr>free_list = [1, 2, 3, 4, 5, 6, 7, 8, 9, 10, 11, 12, 13, 14], chunks = 1,
          objects = [0 \<mapsto> \<lparr>node_next = None, node_data = 0 :: int\<rparr>]\<rparr>\<rparr>) = Some ([],
       \<lparr>q_capacity = 1, q_size = 0, q_head = Some 0, q_tail = Some 0,
        q_pool = \<lparr>free_list = [1, 2, 3, 4, 5, 6, 7, 8, 9, 10, 11, 12, 13, 14], chunks = 1,
          objects = [0 \<mapsto> \<lparr>node_next = None, node_data = 0 :: int\<rparr>]\<rparr>\<rparr>)
   \<and> q_size (\<lparr>q_capacity = 1, q_size = 0, q_head = Some 0, q_tail = Some 0,
        q_pool = \<lparr>free_list = [1, 2, 3, 4, 5, 6, 7, 8, 9, 10, 11, 12, 13, 14], chunks = 1,
          objects = [0 \<mapsto> \<lparr>node_next = None, node_data = 0 :: int\<rparr>]\<rparr>\<rparr>) < q_capacity (\<lparr>q_capacity = 1, q_size = 0, q_head = Some 0, q_tail = Some 0,
        q_pool = \<lparr>free_list = [1, 2, 3, 4, 5, 6, 7, 8, 9, 10, 11, 12, 13, 14], chunks = 1,
          objects = [0 \<mapsto> \<lparr>node_next = None, node_data = 0 :: int\<rparr>]\<rparr>\<rparr>)
   \<and> try_enqueue 7 (\<lparr>q_capacity = 1, q_size = 0, q_head = Some 0, q_tail = Some 0,
        q_pool = \<lparr>free_list = [1, 2, 3, 4, 5, 6, 7, 8, 9, 10, 11, 12, 13, 14], chunks = 1,
          objects = [0 \<mapsto> \<lparr>node_next = None, node_data = 0 :: int\<rparr>]\<rparr>\<rparr>) = Some (True,
       \<lparr>q_capacity = 1, q_size = 1, q_head = Some 0, q_tail = Some 1,
        q_pool = \<lparr>free_list = [2, 3, 4, 5, 6, 7, 8, 9, 10, 11, 12, 13, 14], chunks = 1,
          objects = [0 \<mapsto> \<lparr>node_next = Some 1, node_data = 0 :: int\<rparr>,
                     1 \<mapsto> \<lparr>node_next = None, node_data = 7\<rparr>]\<rparr>\<rparr>)
   \<and> try_dequeue 0 (\<lparr>q_capacity = 1, q_size = 1, q_head = Some 0, q_tail = Some 1,
        q_pool = \<lparr>free_list = [2, 3, 4, 5, 6, 7, 8, 9, 10, 11, 12, 13, 14], chunks = 1,
          objects = [0 \<mapsto> \<lparr>node_next = Some 1, node_data = 0 :: int\<rparr>,
                     1 \<mapsto> \<lparr>node_next = None, node_data = 7\<rparr>]\<rparr>\<rparr>) = Some (True, 7,
       \<lparr>q_capacity = 1, q_size = 0, q_head = Some 1, q_tail = Some 1,
        q_pool = \<lparr>free_list = [0, 2, 3, 4, 5, 6, 7, 8, 9, 10, 11, 12, 13, 14], chunks = 1,
          objects = [1 \<mapsto> \<lparr>node_next = None, node_data = 7 :: int\<rparr>]\<rparr>\<rparr>)"
proof -
  let ?Q0 = "\<lparr>q_capacity = 1, q_size = 0, q_head = Some 0, q_tail = Some 0,
        q_pool = \<lparr>free_list = [1, 2, 3, 4, 5, 6, 7, 8, 9, 10, 11, 12, 13, 14], chunks = 1,
          objects = [0 \<mapsto> \<lparr>node_next = None, node_data = 0 :: int\<rparr>]\<rparr>\<rparr>"
  let ?Q1 = "\<lparr>q_capacity = 1, q_size = 1, q_head = Some 0, q_tail = Some 1,
        q_pool = \<lparr>free_list = [2, 3, 4, 5, 6, 7, 8, 9, 10, 11, 12, 13, 14], chunks = 1,
          objects = [0 \<mapsto> \<lparr>node_next = Some 1, node_data = 0 :: int\<rparr>,
                     1 \<mapsto> \<lparr>node_next = None, node_data = 7\<rparr>]\<rparr>\<rparr>"
  let ?Q2 = "\<lparr>q_capacity = 1, q_size = 0, q_head = Some 1, q_tail = Some 1,
        q_pool = \<lparr>free_list = [0, 2, 3, 4, 5, 6, 7, 8, 9, 10, 11, 12, 13, 14], chunks = 1,
          objects = [1 \<mapsto> \<lparr>node_next = None, node_data = 7 :: int\<rparr>]\<rparr>\<rparr>"
  have new: "MPMCQueue_new 1 = Some ?Q0"
    by (simp add: MPMCQueue_new_def allocate_def allocate_block_def allocate_chunk_def
        MemoryPool_new_def bpc15 upt15)
  have run: "q_run [] ?Q0 = Some ([], ?Q0)" by simp
  have room: "q_size ?Q0 < q_capacity ?Q0" by simp
  have e1: "try_enqueue 7 ?Q0 = Some (True, ?Q1)"
    by (simp add: try_enqueue_def allocate_def allocate_block_def store_data_def
        store_next_def enqueue_loop.simps load_next_def cas_next_def cas_ptr_def fun_eq_iff)
  from enqueue_then_dequeue_fifo [OF new run room, of 7 0] e1
  obtain q2 where d: "try_dequeue 0 ?Q1 = Some (True, 7, q2)"
    by auto
  have "try_dequeue 0 ?Q1 = Some (True, 7, ?Q2)"
    by (simp add: try_dequeue_def dequeue_loop.simps load_next_def load_data_def
        cas_ptr_def deallocate_def fun_eq_iff)
  with new run room e1 d show ?thesis by (intro conjI)
qed

section \<open>Properties of the channel\<close>

text \<open>
  One \<open>try_send_impl\<close> and one \<open>try_receive_impl\<close> on a channel that no other
  call is working on. \<open>send_allocate\<close> constructs the node with
  \<open>committed = true\<close> before the loop links it; \<open>try_receive_impl\<close> takes the
  data of the node after the dummy without reading \<open>committed\<close>.
\<close>

lemma chain_last_next:
  "chain st h xs \<Longrightarrow> \<exists>n. st (last (h # xs)) = Some n \<and> node_next n = None"
  by (induction xs arbitrary: h) (auto split: option.splits)


lemma send_allocate_committed:
  assumes "send_allocate v ch = Some (n, ch1)"
  shows "objects (ch_pool ch1) n = Some (Node_value v) \<and> committed (Node_value v)
    \<and> ch_head ch1 = ch_head ch \<and> ch_tail ch1 = ch_tail ch \<and> ch_size ch1 = ch_size ch
    \<and> (\<forall>a. a \<noteq> n \<longrightarrow> objects (ch_pool ch1) a = objects (ch_pool ch) a)"
proof -
  from assms obtain p1 where b: "allocate_block (ch_pool ch) = Some (n, p1)"
    and c: "ch1 = ch\<lparr>ch_pool := p1\<lparr>objects := (objects p1)(n \<mapsto> Node_value v)\<rparr>\<rparr>"
    by (auto simp: send_allocate_def allocate_def split: option.splits)
  have "objects p1 = objects (ch_pool ch)"
    using b by (auto simp: allocate_block_def allocate_chunk_def Let_def split: list.splits if_splits)
  with c show ?thesis by (simp add: Node_value_def)
qed

lemma try_send_impl_ok:
  assumes inv: "channel_inv ch h xs" and room: "ch_size ch < ch_capacity ch"
  shows "\<exists>node ch1 ch'. send_allocate v ch = Some (node, ch1) \<and> node \<notin> set (h # xs)
    \<and> chain (objects (ch_pool ch1)) h xs
    \<and> try_send_impl v ch = Some (True, ch') \<and> channel_inv ch' h (xs @ [node])
    \<and> node_values (ch_pool ch') (xs @ [node]) = node_values (ch_pool ch) xs @ [Some v]
    \<and> ch_size ch' = ch_size ch + 1 \<and> ch_capacity ch' = ch_capacity ch"
proof -
  let ?st = "objects (ch_pool ch)"
  let ?l = "last (h # xs)"
  from inv have head: "ch_head ch = Some h" and ch: "chain ?st h xs"
    and dist: "distinct (h # xs)" and sz: "unat (ch_size ch) = length xs"
    and tail: "ch_tail ch = Some ?l"
    and com: "\<forall>a \<in> set xs. case ?st a of None \<Rightarrow> False | Some n \<Rightarrow> committed n"
    and ok: "pool_ok (ch_pool ch) (h # xs)"
    by (simp_all add: channel_inv_def list_all_iff)
  obtain node pool1 where al: "allocate (Node_value v) (ch_pool ch) = Some (node, pool1)"
    using allocate_Some [of "Node_value v" "ch_pool ch"] by blast
  from allocate_fresh [OF ok al]
  have fresh: "node \<notin> set (h # xs)" and ok1: "pool_ok pool1 (node # h # xs)"
    and st1: "objects pool1 = ?st(node \<mapsto> Node_value v)"
    by simp_all
  let ?st1 = "?st(node \<mapsto> Node_value v)"
  let ?ch1 = "ch\<lparr>ch_pool := pool1\<rparr>"
  have sa: "send_allocate v ch = Some (node, ?ch1)"
    by (simp add: send_allocate_def al)
  from fresh have ch1: "chain ?st1 h xs"
    using ch by (subst chain_cong [of h xs _ ?st]) auto
  have lin: "?l \<in> set (h # xs)" by (rule last_in_set) simp
  with fresh have ln: "?l \<noteq> node" by auto
  from chain_last_next [OF ch] obtain n where n: "?st ?l = Some n" and nn: "node_next n = None"
    by blast
  from n ln have n1: "?st1 ?l = Some n" by simp
  let ?st2 = "?st1(?l \<mapsto> n\<lparr>node_next := Some node\<rparr>)"
  let ?ch' = "ch\<lparr>ch_pool := pool1\<lparr>objects := ?st2\<rparr>, ch_tail := Some node,
      ch_size := ch_size ch + 1\<rparr>"
  have ld: "load_next (ch_tail ?ch1) (ch_pool ?ch1) = Some None"
    using n1 nn tail by (simp add: load_next_def st1 del: last.simps fun_upd_apply)
  have loop: "send_loop node (Some ?l) None ?ch1 = Some (True, ?ch')"
    using n1 nn tail
    by (subst send_loop.simps)
      (simp add: cas_next_def load_next_def store_next_def cas_ptr_def st1
        del: last.simps fun_upd_apply)
  from room have nf: "\<not> ch_capacity ch \<le> ch_size ch" by simp
  have res: "try_send_impl v ch = Some (True, ?ch')"
    using loop ld tail by (simp add: try_send_impl_def nf sa del: last.simps fun_upd_apply)
  have nd: "?st1 node = Some (Node_value v)" by simp
  have nnv: "node_next (Node_value v) = None" by (simp add: Node_value_def)
  have ch2: "chain ?st2 h (xs @ [node])"
    by (rule chain_snoc [OF ch1 fresh dist nd nnv n1])
  have ok2: "pool_ok (pool1\<lparr>objects := ?st2\<rparr>) (h # xs @ [node])"
    using ok1 pool_ok_set [of "h # xs @ [node]" "node # h # xs" pool1] by auto
  have sz': "unat (ch_size ch + 1) = length (xs @ [node])"
    using unat_size_succ [OF room] sz by simp
  have com': "\<forall>a \<in> set (xs @ [node]). case ?st2 a of None \<Rightarrow> False | Some n \<Rightarrow> committed n"
  proof
    fix a assume a: "a \<in> set (xs @ [node])"
    show "case ?st2 a of None \<Rightarrow> False | Some n \<Rightarrow> committed n"
    proof (cases "a = node")
      case True
      with ln show ?thesis by (simp add: Node_value_def)
    next
      case False
      with a have ax: "a \<in> set xs" by simp
      with com have c: "case ?st a of None \<Rightarrow> False | Some n \<Rightarrow> committed n" by blast
      show ?thesis
      proof (cases "a = ?l")
        case True
        with c n have "committed n" by simp
        with True show ?thesis by simp
      next
        case False
        with \<open>a \<noteq> node\<close> c show ?thesis by simp
      qed
    qed
  qed
  have lst: "last (h # xs @ [node]) = node" by simp
  have inv': "channel_inv ?ch' h (xs @ [node])"
    unfolding channel_inv_def list_all_iff
    using head ch2 dist fresh ok2 sz' com' lst by (simp del: last.simps fun_upd_apply)
  have vals: "node_values (ch_pool ?ch') (xs @ [node]) = node_values (ch_pool ch) xs @ [Some v]"
  proof -
    have "map_option node_data (?st2 a) = map_option node_data (?st a)" if "a \<in> set xs" for a
      using that fresh n by (cases "a = ?l") (auto simp del: last.simps)
    moreover have "map_option node_data (?st2 node) = Some v"
      using ln by (simp add: Node_value_def)
    ultimately show ?thesis
      by (simp add: node_values_def del: last.simps fun_upd_apply)
  qed
  from sa fresh ch1 res inv' vals show ?thesis
    by (intro exI [of _ node] exI [of _ ?ch1] exI [of _ ?ch']) (simp add: st1)
qed

lemma try_receive_impl_takes:
  assumes "ch_head ch = Some h" and "objects (ch_pool ch) h = Some nh"
    and "node_next nh = Some b" and "objects (ch_pool ch) b = Some nb"
  shows "try_receive_impl ch
    = Some (Some (node_data nb),
            ch\<lparr>ch_head := Some b, ch_pool := deallocate (Some h) (ch_pool ch),
               ch_size := ch_size ch - 1\<rparr>)"
  using assms
  by (simp add: try_receive_impl_def load_next_def)
    (subst receive_loop.simps, simp add: load_data_def cas_ptr_def)



text \<open>Both calls return on such a channel and leave it in that shape.\<close>

lemma MPMCChannel_new_inv:
  "\<exists>(ch :: ('a::zero) MPMCChannel) h.
     MPMCChannel_new c = Some ch \<and> channel_inv ch h [] \<and> ch_capacity ch = c \<and> ch_size ch = 0"
proof -
  have ok: "pool_ok (MemoryPool_new :: 'a ChannelNode MemoryPool) []"
    by (simp add: pool_ok_def MemoryPool_new_def)
  obtain h p where al: "allocate (Node_default :: 'a ChannelNode) MemoryPool_new = Some (h, p)"
    using allocate_Some [of "Node_default :: 'a ChannelNode" MemoryPool_new] by blast
  from allocate_fresh [OF ok al] al show ?thesis
    by (simp add: MPMCChannel_new_def channel_inv_def Node_default_def)
qed





text \<open>
  C1, amended. \<open>committed\<close> is written by the constructor of the node only:
  the node that \<open>try_send_impl\<close> allocates has \<open>committed = true\<close> before the loop
  links it, while it is not yet in the chain, and once the call has returned
  every linked node is committed. \<open>try_receive_impl\<close> does not read the flag: on
  a head whose \<open>next\<close> is a node \<open>b\<close> it returns the data of \<open>b\<close>, whatever
  \<open>committed\<close> is in \<open>b\<close>.
\<close>

theorem committed_set_by_constructor:
  fixes ch c :: "'a MPMCChannel"
  shows "(channel_inv ch h xs \<and> ch_size ch < ch_capacity ch \<longrightarrow>
      (\<exists>node ch1 ch'. send_allocate v ch = Some (node, ch1)
         \<and> map_option committed (objects (ch_pool ch1) node) = Some True
         \<and> node \<notin> set (h # xs) \<and> chain (objects (ch_pool ch1)) h xs
         \<and> try_send_impl v ch = Some (True, ch')
         \<and> channel_inv ch' h (xs @ [node])))
    \<and> (ch_head c = Some a \<and> objects (ch_pool c) a = Some na \<and> node_next na = Some b
         \<and> objects (ch_pool c) b = Some nb \<longrightarrow>
       try_receive_impl c = Some (Some (node_data nb),
         c\<lparr>ch_head := Some b, ch_pool := deallocate (Some a) (ch_pool c),
           ch_size := ch_size c - 1\<rparr>))"
proof (intro conjI impI)
  assume "channel_inv ch h xs \<and> ch_size ch < ch_capacity ch"
  then have inv: "channel_inv ch h xs" and room: "ch_size ch < ch_capacity ch" by simp_all
  from try_send_impl_ok [OF inv room, of v] obtain node ch1 ch' where
    al: "send_allocate v ch = Some (node, ch1)"
    and rest: "node \<notin> set (h # xs)" "chain (objects (ch_pool ch1)) h xs"
      "try_send_impl v ch = Some (True, ch')" "channel_inv ch' h (xs @ [node])"
    by blast
  from send_allocate_committed [OF al]
  have "map_option committed (objects (ch_pool ch1) node) = Some True" by simp
  with al rest show "\<exists>node ch1 ch'. send_allocate v ch = Some (node, ch1)
         \<and> map_option committed (objects (ch_pool ch1) node) = Some True
         \<and> node \<notin> set (h # xs) \<and> chain (objects (ch_pool ch1)) h xs
         \<and> try_send_impl v ch = Some (True, ch')
         \<and> channel_inv ch' h (xs @ [node])"
    by blast
next
  assume "ch_head c = Some a \<and> objects (ch_pool c) a = Some na \<and> node_next na = Some b
         \<and> objects (ch_pool c) b = Some nb"
  then have "ch_head c = Some a" "objects (ch_pool c) a = Some na" "node_next na = Some b"
    "objects (ch_pool c) b = Some nb"
    by simp_all
  then show "try_receive_impl c = Some (Some (node_data nb),
         c\<lparr>ch_head := Some b, ch_pool := deallocate (Some a) (ch_pool c),
           ch_size := ch_size c - 1\<rparr>)"
    by (rule try_receive_impl_takes)
qed

text \<open>
  On a fresh channel of capacity 1, after the first statement of
  \<open>try_send_impl 7\<close> the new node 1 has \<open>committed = true\<close> and the \<open>next\<close> of
  the tail is still null: the flag is set before the CAS that links the node.
  No send produces a linked node with \<open>committed = false\<close>; on a channel built
  with one, \<open>try_receive_impl\<close> returns its value.
\<close>

theorem committed_after_link_counterexample:
  "MPMCChannel_new 1 = Some
       \<lparr>ch_capacity = 1, ch_size = 0, ch_head = Some 0, ch_tail = Some 0,
        ch_pool = \<lparr>free_list = [1, 2, 3, 4, 5, 6, 7, 8, 9, 10, 11, 12, 13, 14], chunks = 1,
          objects = [0 \<mapsto> \<lparr>node_next = None, node_data = 0 :: int, committed = False\<rparr>]\<rparr>\<rparr>
   \<and> send_allocate 7 (\<lparr>ch_capacity = 1, ch_size = 0, ch_head = Some 0, ch_tail = Some 0,
        ch_pool = \<lparr>free_list = [1, 2, 3, 4, 5, 6, 7, 8, 9, 10, 11, 12, 13, 14], chunks = 1,
          objects = [0 \<mapsto> \<lparr>node_next = None, node_data = 0 :: int, committed = False\<rparr>]\<rparr>\<rparr>) = Some (1,
       \<lparr>ch_capacity = 1, ch_size = 0, ch_head = Some 0, ch_tail = Some 0,
        ch_pool = \<lparr>free_list = [2, 3, 4, 5, 6, 7, 8, 9, 10, 11, 12, 13, 14], chunks = 1,
          objects = [0 \<mapsto> \<lparr>node_next = None, node_data = 0 :: int, committed = False\<rparr>,
                     1 \<mapsto> \<lparr>node_next = None, node_data = 7, committed = True\<rparr>]\<rparr>\<rparr>)
   \<and> map_option committed (objects (ch_pool (\<lparr>ch_capacity = 1, ch_size = 0, ch_head = Some 0, ch_tail = Some 0,
        ch_pool = \<lparr>free_list = [2, 3, 4, 5, 6, 7, 8, 9, 10, 11, 12, 13, 14], chunks = 1,
          objects = [0 \<mapsto> \<lparr>node_next = None, node_data = 0 :: int, committed = False\<rparr>,
                     1 \<mapsto> \<lparr>node_next = None, node_data = 7, committed = True\<rparr>]\<rparr>\<rparr>)) 1) = Some True
   \<and> load_next (ch_tail (\<lparr>ch_capacity = 1, ch_size = 0, ch_head = Some 0, ch_tail = Some 0,
        ch_pool = \<lparr>free_list = [2, 3, 4, 5, 6, 7, 8, 9, 10, 11, 12, 13, 14], chunks = 1,
          objects = [0 \<mapsto> \<lparr>node_next = None, node_data = 0 :: int, committed = False\<rparr>,
                     1 \<mapsto> \<lparr>node_next = None, node_data = 7, committed = True\<rparr>]\<rparr>\<rparr>)) (ch_pool (\<lparr>ch_capacity = 1, ch_size = 0, ch_head = Some 0, ch_tail = Some 0,
        ch_pool = \<lparr>free_list = [2, 3, 4, 5, 6, 7, 8, 9, 10, 11, 12, 13, 14], chunks = 1,
          objects = [0 \<mapsto> \<lparr>node_next = None, node_data = 0 :: int, committed = False\<rparr>,
                     1 \<mapsto> \<lparr>node_next = None, node_data = 7, committed = True\<rparr>]\<rparr>\<rparr>)) = Some None
   \<and> try_receive_impl (\<lparr>ch_capacity = 1, ch_size = 1, ch_head = Some 0, ch_tail = Some 1,
        ch_pool = \<lparr>free_list = [2, 3, 4, 5, 6, 7, 8, 9, 10, 11, 12, 13, 14], chunks = 1,
          objects = [0 \<mapsto> \<lparr>node_next = Some 1, node_data = 0 :: int, committed = False\<rparr>,
                     1 \<mapsto> \<lparr>node_next = None, node_data = 7, committed = False\<rparr>]\<rparr>\<rparr>) = Some (Some 7,
       \<lparr>ch_capacity = 1, ch_size = 0, ch_head = Some 1, ch_tail = Some 1,
        ch_pool = \<lparr>free_list = [0, 2, 3, 4, 5, 6, 7, 8, 9, 10, 11, 12, 13, 14], chunks = 1,
          objects = [1 \<mapsto> \<lparr>node_next = None, node_data = 7 :: int, committed = False\<rparr>]\<rparr>\<rparr>)"
  by (simp add: MPMCChannel_new_def Node_default_def Node_value_def send_allocate_def
      allocate_def allocate_block_def allocate_chunk_def MemoryPool_new_def bpc15 upt15
      try_receive_impl_def receive_loop.simps load_next_def load_data_def cas_ptr_def
      deallocate_def fun_eq_iff)

theorem committed_set_by_constructor_witness:
  "channel_inv (\<lparr>ch_capacity = 1, ch_size = 0, ch_head = Some 0, ch_tail = Some 0,
        ch_pool = \<lparr>free_list = [1, 2, 3, 4, 5, 6, 7, 8, 9, 10, 11, 12, 13, 14], chunks = 1,
          objects = [0 \<mapsto> \<lparr>node_next = None, node_data = 0 :: int, committed = False\<rparr>]\<rparr>\<rparr>) 0 []
   \<and> ch_size (\<lparr>ch_capacity = 1, ch_size = 0, ch_head = Some 0, ch_tail = Some 0,
        ch_pool = \<lparr>free_list = [1, 2, 3, 4, 5, 6, 7, 8, 9, 10, 11, 12, 13, 14], chunks = 1,
          objects = [0 \<mapsto> \<lparr>node_next = None, node_data = 0 :: int, committed = False\<rparr>]\<rparr>\<rparr>) < ch_capacity (\<lparr>ch_capacity = 1, ch_size = 0, ch_head = Some 0, ch_tail = Some 0,
        ch_pool = \<lparr>free_list = [1, 2, 3, 4, 5, 6, 7, 8, 9, 10, 11, 12, 13, 14], chunks = 1,
          objects = [0 \<mapsto> \<lparr>node_next = None, node_data = 0 :: int, committed = False\<rparr>]\<rparr>\<rparr>)
   \<and> send_allocate 7 (\<lparr>ch_capacity = 1, ch_size = 0, ch_head = Some 0, ch_tail = Some 0,
        ch_pool = \<lparr>free_list = [1, 2, 3, 4, 5, 6, 7, 8, 9, 10, 11, 12, 13, 14], chunks = 1,
          objects = [0 \<mapsto> \<lparr>node_next = None, node_data = 0 :: int, committed = False\<rparr>]\<rparr>\<rparr>) = Some (1,
       \<lparr>ch_capacity = 1, ch_size = 0, ch_head = Some 0, ch_tail = Some 0,
        ch_pool = \<lparr>free_list = [2, 3, 4, 5, 6, 7, 8, 9, 10, 11, 12, 13, 14], chunks = 1,
          objects = [0 \<mapsto> \<lparr>node_next = None, node_data = 0 :: int, committed = False\<rparr>,
                     1 \<mapsto> \<lparr>node_next = None, node_data = 7, committed = True\<rparr>]\<rparr>\<rparr>)
   \<and> try_send_impl 7 (\<lparr>ch_capacity = 1, ch_size = 0, ch_head = Some 0, ch_tail = Some 0,
        ch_pool = \<lparr>free_list = [1, 2, 3, 4, 5, 6, 7, 8, 9, 10, 11, 12, 13, 14], chunks = 1,
          objects = [0 \<mapsto> \<lparr>node_next = None, node_data = 0 :: int, committed = False\<rparr>]\<rparr>\<rparr>) = Some (True,
       \<lparr>ch_capacity = 1, ch_size = 1, ch_head = Some 0, ch_tail = Some 1,
        ch_pool = \<lparr>free_list = [2, 3, 4, 5, 6, 7, 8, 9, 10, 11, 12, 13, 14], chunks = 1,
          objects = [0 \<mapsto> \<lparr>node_next = Some 1, node_data = 0 :: int, committed = False\<rparr>,
                     1 \<mapsto> \<lparr>node_next = None, node_data = 7, committed = True\<rparr>]\<rparr>\<rparr>)
   \<and> try_receive_impl (\<lparr>ch_capacity = 1, ch_size = 1, ch_head = Some 0, ch_tail = Some 1,
        ch_pool = \<lparr>free_list = [2, 3, 4, 5, 6, 7, 8, 9, 10, 11, 12, 13, 14], chunks = 1,
          objects = [0 \<mapsto> \<lparr>node_next = Some 1, node_data = 0 :: int, committed = False\<rparr>,
                     1 \<mapsto> \<lparr>node_next = None, node_data = 7, committed = True\<rparr>]\<rparr>\<rparr>) = Some (Some 7,
       \<lparr>ch_capacity = 1, ch_size = 0, ch_head = Some 1, ch_tail = Some 1,
        ch_pool = \<lparr>free_list = [0, 2, 3, 4, 5, 6, 7, 8, 9, 10, 11, 12, 13, 14], chunks = 1,
          objects = [1 \<mapsto> \<lparr>node_next = None, node_data = 7 :: int, committed = True\<rparr>]\<rparr>\<rparr>)"
proof -
  let ?C0 = "\<lparr>ch_capacity = 1, ch_size = 0, ch_head = Some 0, ch_tail = Some 0,
        ch_pool = \<lparr>free_list = [1, 2, 3, 4, 5, 6, 7, 8, 9, 10, 11, 12, 13, 14], chunks = 1,
          objects = [0 \<mapsto> \<lparr>node_next = None, node_data = 0 :: int, committed = False\<rparr>]\<rparr>\<rparr>"
  let ?C1a = "\<lparr>ch_capacity = 1, ch_size = 0, ch_head = Some 0, ch_tail = Some 0,
        ch_pool = \<lparr>free_list = [2, 3, 4, 5, 6, 7, 8, 9, 10, 11, 12, 13, 14], chunks = 1,
          objects = [0 \<mapsto> \<lparr>node_next = None, node_data = 0 :: int, committed = False\<rparr>,
                     1 \<mapsto> \<lparr>node_next = None, node_data = 7, committed = True\<rparr>]\<rparr>\<rparr>"
  let ?C1 = "\<lparr>ch_capacity = 1, ch_size = 1, ch_head = Some 0, ch_tail = Some 1,
        ch_pool = \<lparr>free_list = [2, 3, 4, 5, 6, 7, 8, 9, 10, 11, 12, 13, 14], chunks = 1,
          objects = [0 \<mapsto> \<lparr>node_next = Some 1, node_data = 0 :: int, committed = False\<rparr>,
                     1 \<mapsto> \<lparr>node_next = None, node_data = 7, committed = True\<rparr>]\<rparr>\<rparr>"
  let ?C2 = "\<lparr>ch_capacity = 1, ch_size = 0, ch_head = Some 1, ch_tail = Some 1,
        ch_pool = \<lparr>free_list = [0, 2, 3, 4, 5, 6, 7, 8, 9, 10, 11, 12, 13, 14], chunks = 1,
          objects = [1 \<mapsto> \<lparr>node_next = None, node_data = 7 :: int, committed = True\<rparr>]\<rparr>\<rparr>"
  have new: "MPMCChannel_new 1 = Some ?C0"
    by (simp add: MPMCChannel_new_def Node_default_def allocate_def allocate_block_def
        allocate_chunk_def MemoryPool_new_def bpc15 upt15)
  from MPMCChannel_new_inv [of 1, where 'a = int] new
  have inv: "channel_inv ?C0 0 []"
    by (auto simp: channel_inv_def)
  have room: "ch_size ?C0 < ch_capacity ?C0" by simp
  have al: "send_allocate 7 ?C0 = Some (1, ?C1a)"
    by (simp add: send_allocate_def Node_value_def allocate_def allocate_block_def fun_eq_iff)
  have s: "try_send_impl 7 ?C0 = Some (True, ?C1)"
    by (simp add: try_send_impl_def send_allocate_def Node_value_def allocate_def
        allocate_block_def send_loop.simps load_next_def store_next_def cas_next_def cas_ptr_def fun_eq_iff)
  have r: "try_receive_impl ?C1 = Some (Some 7, ?C2)"
    by (simp add: try_receive_impl_def receive_loop.simps load_next_def load_data_def
        cas_ptr_def deallocate_def fun_eq_iff)
  from committed_set_by_constructor [of ?C0 0 "[]" 7 ?C1 0
      "\<lparr>node_next = Some 1, node_data = 0, committed = False\<rparr>" 1
      "\<lparr>node_next = None, node_data = 7, committed = True\<rparr>"] inv room
  have "try_receive_impl ?C1 = Some (Some 7,
      ?C1\<lparr>ch_head := Some 1, ch_pool := deallocate (Some 0) (ch_pool ?C1),
           ch_size := ch_size ?C1 - 1\<rparr>)"
    by simp
  with inv room al s r show ?thesis by (intro conjI)
qed



end
